theory Spec2Isabelle
  imports Complex_Main "HOL-Library.Word"
begin

section \<open>bashdrop-server: a one-shot relay, upload once and then download once\<close>

text \<open>
  The program of \<^verbatim>\<open>bashdrop-server.py\<close> talks to sockets, to one staged file and to
  the terminal. The embedding makes the outside world an explicit input (what each
  blocking call meets) and the program's effects an explicit output (the list of actions
  it performed, the content of the staged file, the bytes put on the wire).

  What the outside world may do: a listening socket may fail to bind, and asked for port 0
  it is bound to a port that the system picks; a peer may send
  bytes after a delay, close, or reset the connection; the operator may press Ctrl-C while
  the program blocks in \<^verbatim>\<open>accept\<close>, \<^verbatim>\<open>recv\<close> or \<^verbatim>\<open>sendall\<close>; a send may fail;
  deleting the file or the directory may be refused. Writing to and reading from the
  staged file succeed. Rendering of the printed text (colours, rules, terminal width) is
  not modelled: a print call is recorded with the text that depends on the program's input.
\<close>

subsection \<open>Tunables\<close>

type_synonym bytes = "8 word list"

definition DEFAULT_PORT :: int where
  "DEFAULT_PORT = 9000"

definition CHUNK_SIZE :: nat where
  "CHUNK_SIZE = 131072"

text \<open>Seconds to decide whether a connection is real (data received) or a stray probe.\<close>

definition PROBE_WAIT :: real where
  "PROBE_WAIT = 2"

subsection \<open>Exceptions and results\<close>

text \<open>
  \<open>Timeout\<close> is \<^verbatim>\<open>socket.timeout\<close>. \<open>OSError\<close> stands for every other exception of
  a socket or file call (a reset connection, a broken pipe, an address in use, a missing
  file, and the \<^verbatim>\<open>OverflowError\<close> of a port out of range): the program treats them
  alike. Both are instances of \<^verbatim>\<open>Exception\<close>. \<open>KeyboardInterrupt\<close> is not:
  \<^verbatim>\<open>except Exception\<close> lets it through. \<open>Diverge\<close> is a call that never returns.
\<close>

datatype exn = Timeout | OSError | KeyboardInterrupt

fun is_Exception :: "exn \<Rightarrow> bool" where
  "is_Exception Timeout = True"
| "is_Exception OSError = True"
| "is_Exception KeyboardInterrupt = False"

datatype 'a outcome = Return 'a | Raise exn | Diverge

subsection \<open>Actions\<close>

datatype sock = Up_sock | Down_sock

datatype title = Title_relay | Title_sender | Title_receiver | Title_waiting | Title_ready

datatype remark = Note_relay | Note_sender | Note_receiver | Note_waiting | Note_ready

datatype message = Interrupted_upload | Download_complete | Interrupted_download | Done

datatype out =
    Box_title title
  | Box_footer
  | Blank
  | Dim_line remark
  | Info_kv string string
  | Mode_header string
  | Cmd_block string
  | Upload_complete nat
  | Msg message

datatype action =
    Mkdtemp
  | Print out
  | Listen sock int
  | Bind_failed sock int
  | Close_listener sock
  | Accept sock
  | Set_timeout "real option"
  | Recv "real option"
  | Close_conn
  | Open_wb
  | Write bytes
  | Open_rb
  | Read_chunk
  | Sendall bytes
  | Shutdown_wr
  | Os_remove
  | Os_rmdir
  | Sys_exit int

subsection \<open>Connections\<close>

text \<open>
  What ends the wait of one blocking \<^verbatim>\<open>recv\<close>: after the given number of seconds the
  peer's bytes are there (no bytes: the peer has closed its side), the connection breaks,
  or the operator interrupts. A connection whose events are used up stays silent for ever.
\<close>

datatype peer_event = Data real bytes | Reset real | CtrlC real

fun delay :: "peer_event \<Rightarrow> real" where
  "delay (Data d bs) = d"
| "delay (Reset d) = d"
| "delay (CtrlC d) = d"

fun lapse :: "real \<Rightarrow> peer_event \<Rightarrow> peer_event" where
  "lapse t (Data d bs) = Data (d - t) bs"
| "lapse t (Reset d) = Reset (d - t)"
| "lapse t (CtrlC d) = CtrlC (d - t)"

record conn =
  timeout :: "real option"
  inbox :: "peer_event list"

text \<open>A freshly accepted connection is blocking: it has no timeout.\<close>

definition new_conn :: "peer_event list \<Rightarrow> conn" where
  "new_conn evs = \<lparr>timeout = None, inbox = evs\<rparr>"

definition settimeout :: "real option \<Rightarrow> conn \<Rightarrow> conn" where
  "settimeout t c = c\<lparr>timeout := t\<rparr>"

text \<open>
  \<^verbatim>\<open>conn.recv(n)\<close>: with a timeout \<open>t\<close> an event that needs \<open>t\<close> seconds or more raises
  \<^verbatim>\<open>socket.timeout\<close>; without one the call waits as long as it takes. At most \<open>n\<close> bytes
  are returned, the rest stays in the socket for the next call.
\<close>

fun expired :: "real option \<Rightarrow> real \<Rightarrow> bool" where
  "expired None d = False"
| "expired (Some t) d = (t \<le> d)"

fun deliver :: "nat \<Rightarrow> peer_event \<Rightarrow> peer_event list \<Rightarrow> bytes outcome \<times> peer_event list" where
  "deliver n (Data d bs) es =
     (Return (take n bs), if n < length bs then Data 0 (drop n bs) # es else es)"
| "deliver n (Reset d) es = (Raise OSError, es)"
| "deliver n (CtrlC d) es = (Raise KeyboardInterrupt, es)"

definition recv :: "nat \<Rightarrow> conn \<Rightarrow> bytes outcome \<times> conn" where
  "recv n c =
     (case inbox c of
        [] \<Rightarrow> (case timeout c of None \<Rightarrow> (Diverge, c) | Some t \<Rightarrow> (Raise Timeout, c))
      | e # es \<Rightarrow>
          if expired (timeout c) (delay e)
          then (Raise Timeout, c\<lparr>inbox := lapse (the (timeout c)) e # es\<rparr>)
          else (case deliver n e es of (r, es') \<Rightarrow> (r, c\<lparr>inbox := es'\<rparr>)))"

subsection \<open>The upload phase\<close>

text \<open>
  The size of what a connection still holds: the measure under which the copy loop ends.
\<close>

fun weight :: "peer_event list \<Rightarrow> nat" where
  "weight [] = 0"
| "weight (Data d bs # es) = Suc (length bs + weight es)"
| "weight (e # es) = Suc (weight es)"

text \<open>
  The inner \<^verbatim>\<open>while True\<close> of \<^verbatim>\<open>accept_upload\<close> (lines 209 to 214): receive, stop at an
  empty chunk, else append it to the file and add its length to \<open>sz\<close>. The result is how
  the loop ended, the file's content, \<open>sz\<close>, and the actions performed.
\<close>

function copy_loop :: "conn \<Rightarrow> bytes \<Rightarrow> nat \<Rightarrow> unit outcome \<times> bytes \<times> nat \<times> action list" where
  "copy_loop c f sz =
     (case recv CHUNK_SIZE c of
        (Return data, c') \<Rightarrow>
          if data = [] then (Return (), f, sz, [Recv (timeout c)])
          else (case copy_loop c' (f @ data) (sz + length data) of
                  (r, f', sz', a) \<Rightarrow> (r, f', sz', Recv (timeout c) # Write data # a))
      | (Raise e, c') \<Rightarrow> (Raise e, f, sz, [Recv (timeout c)])
      | (Diverge, c') \<Rightarrow> (Diverge, f, sz, [Recv (timeout c)]))"
  by pat_completeness auto
termination
proof (relation "measure (\<lambda>(c, f, sz). weight (inbox c))")
  show "wf (measure (\<lambda>(c, f, sz). weight (inbox c)))"
    by simp
next
  fix c :: conn and f :: bytes and sz :: nat and x c' data
  assume call: "(x, c') = recv CHUNK_SIZE c" "x = Return data" and more: "data \<noteq> []"
  have pos: "0 < CHUNK_SIZE"
    by (simp add: CHUNK_SIZE_def)
  have step: "weight es' < weight (e # es)" if "deliver CHUNK_SIZE e es = (r, es')" for e es r es'
    using that pos by (cases e) (auto split: if_splits)
  have "weight (inbox c') < weight (inbox c)"
  proof (cases "inbox c")
    case Nil
    with call show ?thesis
      by (auto simp: recv_def split: option.splits)
  next
    case (Cons e es)
    with call show ?thesis
      by (auto simp: recv_def split: if_splits prod.splits dest: step)
  qed
  then show "((c', f @ data, sz + length data), c, f, sz)
      \<in> measure (\<lambda>(c, f, sz). weight (inbox c))"
    by simp
qed

declare copy_loop.simps [simp del]

text \<open>How the handling of one accepted connection leaves the outer loop.\<close>

datatype step = Break | Continue | Propagate exn | Stuck

text \<open>
  The body of the outer \<^verbatim>\<open>while True\<close> for one accepted connection (lines 194 to 222).
  The file is \<open>None\<close> while it does not exist; \<^verbatim>\<open>open(staged_path, "wb")\<close> creates it or
  truncates it. An exception that leaves the \<^verbatim>\<open>with\<close> block closes the file with what was
  written so far.
\<close>

definition upload_attempt ::
  "conn \<Rightarrow> bytes option \<Rightarrow> nat \<Rightarrow> step \<times> bytes option \<times> nat \<times> action list" where
  "upload_attempt conn0 file sz =
     (let c1 = settimeout (Some PROBE_WAIT) conn0;
          (r1, c2) = recv CHUNK_SIZE c1;
          a1 = [Set_timeout (Some PROBE_WAIT), Recv (timeout c1)]
      in case (case r1 of Raise Timeout \<Rightarrow> Return [] | _ \<Rightarrow> r1) of
           Diverge \<Rightarrow> (Stuck, file, sz, a1)
         | Raise e \<Rightarrow>
             if is_Exception e then (Continue, file, sz, a1 @ [Close_conn])
             else (Propagate e, file, sz, a1)
         | Return first_chunk \<Rightarrow>
             let c3 = settimeout None c2;
                 a2 = a1 @ [Set_timeout None]
             in if first_chunk = [] then (Continue, file, sz, a2 @ [Close_conn])
                else
                  (case copy_loop c3 ([] @ first_chunk) (sz + length first_chunk) of
                     (r, f', sz', a) \<Rightarrow>
                       let a3 = a2 @ [Open_wb, Write first_chunk] @ a
                       in (case r of
                             Return u \<Rightarrow> (Break, Some f', sz', a3 @ [Close_conn])
                           | Raise e \<Rightarrow>
                               if is_Exception e
                               then (Continue, Some f', sz', a3 @ [Close_conn])
                               else (Propagate e, Some f', sz', a3)
                           | Diverge \<Rightarrow> (Stuck, Some f', sz', a3))))"

text \<open>
  What meets one call of \<^verbatim>\<open>up_sock.accept()\<close>: a client connects, or the operator
  interrupts the wait. When no client is left the call waits for ever.
\<close>

datatype incoming = Connect "peer_event list" | Interrupt

fun accept_loop ::
  "incoming list \<Rightarrow> bytes option \<Rightarrow> nat \<Rightarrow> nat outcome \<times> bytes option \<times> action list" where
  "accept_loop [] file sz = (Diverge, file, [Accept Up_sock])"
| "accept_loop (Interrupt # rest) file sz =
     (Raise KeyboardInterrupt, file, [Accept Up_sock])"
| "accept_loop (Connect evs # rest) file sz =
     (case upload_attempt (new_conn evs) file sz of
        (Break, file', sz', a) \<Rightarrow> (Return sz', file', Accept Up_sock # a)
      | (Continue, file', sz', a) \<Rightarrow>
          (case accept_loop rest file' sz' of
             (r, file'', a') \<Rightarrow> (r, file'', Accept Up_sock # a @ a'))
      | (Propagate e, file', sz', a) \<Rightarrow> (Raise e, file', Accept Up_sock # a)
      | (Stuck, file', sz', a) \<Rightarrow> (Diverge, file', Accept Up_sock # a))"

text \<open>
  The port a socket is bound to when the bind succeeds: the port asked for, except that
  for port 0 the system picks a free port of its own, anew at each bind.
\<close>

definition bound_port :: "int \<Rightarrow> int \<Rightarrow> int" where
  "bound_port port ephemeral = (if port = 0 then ephemeral else port)"

text \<open>
  \<^verbatim>\<open>listen_once\<close>: binding raises for a port outside 0 to 65535 and when the system
  refuses the address. \<open>ephemeral\<close> is the port the system would pick at this bind. The
  action \<open>Listen\<close> records the port the socket is bound to, \<open>Bind_failed\<close> the port
  asked for.
\<close>

definition listen_once ::
  "sock \<Rightarrow> int \<Rightarrow> bool \<Rightarrow> int \<Rightarrow> unit outcome \<times> action list" where
  "listen_once s port bind_ok ephemeral =
     (if 0 \<le> port \<and> port \<le> 65535 \<and> bind_ok
      then (Return (), [Listen s (bound_port port ephemeral)])
      else (Raise OSError, [Bind_failed s port]))"

text \<open>
  \<^verbatim>\<open>accept_upload\<close>: \<^verbatim>\<open>listen_once\<close> is called before the \<^verbatim>\<open>try\<close>; the \<^verbatim>\<open>finally\<close>
  closes the listening socket however the loop ends.
\<close>

definition accept_upload ::
  "int \<Rightarrow> bool \<Rightarrow> int \<Rightarrow> incoming list \<Rightarrow> bytes option
   \<Rightarrow> nat outcome \<times> bytes option \<times> action list" where
  "accept_upload port bind_ok ephemeral clients file =
     (case listen_once Up_sock port bind_ok ephemeral of
        (Return u, a0) \<Rightarrow>
          (case accept_loop clients file 0 of
             (Diverge, file', a) \<Rightarrow> (Diverge, file', a0 @ a)
           | (r, file', a) \<Rightarrow> (r, file', a0 @ a @ [Close_listener Up_sock]))
      | (Raise e, a0) \<Rightarrow> (Raise e, file, a0)
      | (Diverge, a0) \<Rightarrow> (Diverge, file, a0))"

subsection \<open>The download phase\<close>

text \<open>
  What one \<^verbatim>\<open>conn.sendall(chunk)\<close> meets: the chunk goes out, or after some bytes of it
  the connection breaks or the operator interrupts. Once the events are used up every
  further chunk goes out.
\<close>

datatype send_event = Sent | Send_error nat | Send_interrupt nat

text \<open>
  The \<^verbatim>\<open>while True\<close> of \<^verbatim>\<open>serve_download\<close> (lines 236 to 240) on what is left of the
  file to read. The result is how the loop ended, the bytes that went out, the actions.
\<close>

function send_loop :: "bytes \<Rightarrow> send_event list \<Rightarrow> unit outcome \<times> bytes \<times> action list" where
  "send_loop rest evs =
     (let chunk = take CHUNK_SIZE rest
      in if chunk = [] then (Return (), [], [Read_chunk])
         else (case evs of
                 Send_error k # evs' \<Rightarrow>
                   (Raise OSError, take k chunk, [Read_chunk, Sendall chunk])
               | Send_interrupt k # evs' \<Rightarrow>
                   (Raise KeyboardInterrupt, take k chunk, [Read_chunk, Sendall chunk])
               | Sent # evs' \<Rightarrow>
                   (case send_loop (drop CHUNK_SIZE rest) evs' of
                      (r, w, a) \<Rightarrow> (r, chunk @ w, Read_chunk # Sendall chunk # a))
               | [] \<Rightarrow>
                   (case send_loop (drop CHUNK_SIZE rest) [] of
                      (r, w, a) \<Rightarrow> (r, chunk @ w, Read_chunk # Sendall chunk # a))))"
  by pat_completeness auto
termination
  by (relation "measure (\<lambda>(rest, evs). length rest)") (auto simp: CHUNK_SIZE_def)

declare send_loop.simps [simp del]

text \<open>
  What meets \<^verbatim>\<open>down_sock.accept()\<close>: a client, an interrupt, or nobody, ever.
\<close>

datatype down_incoming = Client "send_event list" | Down_interrupt | No_client

text \<open>
  \<^verbatim>\<open>serve_download\<close>: \<^verbatim>\<open>with conn\<close> closes the connection and the \<^verbatim>\<open>finally\<close> closes
  the listening socket however the body ends; an error of \<^verbatim>\<open>shutdown\<close> is passed over.
  Opening a file that does not exist raises.
\<close>

definition serve_download ::
  "int \<Rightarrow> bool \<Rightarrow> int \<Rightarrow> down_incoming \<Rightarrow> bytes option
   \<Rightarrow> unit outcome \<times> bytes \<times> action list" where
  "serve_download port bind_ok ephemeral client file =
     (case listen_once Down_sock port bind_ok ephemeral of
        (Return u, a0) \<Rightarrow>
          (case client of
             No_client \<Rightarrow> (Diverge, [], a0 @ [Accept Down_sock])
           | Down_interrupt \<Rightarrow>
               (Raise KeyboardInterrupt, [], a0 @ [Accept Down_sock, Close_listener Down_sock])
           | Client evs \<Rightarrow>
               (case file of
                  None \<Rightarrow>
                    (Raise OSError, [],
                     a0 @ [Accept Down_sock, Open_rb, Close_conn, Close_listener Down_sock])
                | Some f \<Rightarrow>
                    (case send_loop f evs of
                       (Return v, w, a) \<Rightarrow>
                         (Return (), w,
                          a0 @ [Accept Down_sock, Open_rb] @ a
                             @ [Shutdown_wr, Close_conn, Close_listener Down_sock])
                     | (Raise e, w, a) \<Rightarrow>
                         (Raise e, w,
                          a0 @ [Accept Down_sock, Open_rb] @ a
                             @ [Close_conn, Close_listener Down_sock])
                     | (Diverge, w, a) \<Rightarrow>
                         (Diverge, w, a0 @ [Accept Down_sock, Open_rb] @ a))))
      | (Raise e, a0) \<Rightarrow> (Raise e, [], a0)
      | (Diverge, a0) \<Rightarrow> (Diverge, [], a0))"

subsection \<open>Deleting the staged data\<close>

text \<open>
  \<^verbatim>\<open>os.remove\<close> raises when the file does not exist or the system refuses;
  \<^verbatim>\<open>os.rmdir\<close> raises when the directory does not exist, is not empty, or the system
  refuses.
\<close>

definition os_remove :: "bool \<Rightarrow> bytes option \<Rightarrow> unit outcome \<times> bytes option" where
  "os_remove denied file =
     (if file = None \<or> denied then (Raise OSError, file) else (Return (), None))"

definition os_rmdir :: "bool \<Rightarrow> bytes option \<Rightarrow> bool \<Rightarrow> unit outcome \<times> bool" where
  "os_rmdir denied file dir =
     (if \<not> dir \<or> file \<noteq> None \<or> denied then (Raise OSError, dir) else (Return (), False))"

text \<open>
  The two deletions as \<^verbatim>\<open>main\<close> writes them, each in its own
  \<^verbatim>\<open>try: ... except Exception: pass\<close>: what either call raises is dropped.
\<close>

definition cleanup ::
  "bool \<Rightarrow> bool \<Rightarrow> bytes option \<Rightarrow> bool \<Rightarrow> bytes option \<times> bool \<times> action list" where
  "cleanup remove_no rmdir_no file dir =
     (case os_remove remove_no file of
        (r1, file') \<Rightarrow>
          (case os_rmdir rmdir_no file' dir of
             (r2, dir') \<Rightarrow> (file', dir', [Os_remove, Os_rmdir])))"

subsection \<open>Passwords\<close>

definition ascii_lowercase :: string where
  "ascii_lowercase = ''abcdefghijklmnopqrstuvwxyz''"

definition ascii_uppercase :: string where
  "ascii_uppercase = ''ABCDEFGHIJKLMNOPQRSTUVWXYZ''"

definition ascii_letters :: string where
  "ascii_letters = ascii_lowercase @ ascii_uppercase"

definition digits :: string where
  "digits = ''0123456789''"

text \<open>
  \<^verbatim>\<open>secrets.choice(seq)\<close> is \<^verbatim>\<open>seq[randbelow(len(seq))]\<close>. The random source is an
  input: \<open>r\<close> is the raw number drawn, reduced below the length. The program calls it on
  the alphabet only, which is not empty.
\<close>

definition choice :: "'a list \<Rightarrow> nat \<Rightarrow> 'a" where
  "choice seq r = seq ! (r mod length seq)"

text \<open>\<open>rnd i\<close> is the number drawn for the character at position \<open>i\<close>.\<close>

definition gen_password :: "nat \<Rightarrow> (nat \<Rightarrow> nat) \<Rightarrow> string" where
  "gen_password n rnd =
     (let alphabet = ascii_letters @ digits
      in map (\<lambda>i. choice alphabet (rnd i)) [0..<n])"

subsection \<open>Printed commands\<close>

text \<open>\<^verbatim>\<open>str\<close> of an integer, for the port in the printed commands.\<close>

function str_nat :: "nat \<Rightarrow> string" where
  "str_nat n =
     (if n < 10 then [char_of (48 + n)]
      else str_nat (n div 10) @ [char_of (48 + n mod 10)])"
  by pat_completeness auto
termination
  by (relation "measure id") auto

declare str_nat.simps [simp del]

definition str_int :: "int \<Rightarrow> string" where
  "str_int i = (if i < 0 then CHR ''-'' # str_nat (nat (- i)) else str_nat (nat i))"

definition banner :: "string \<Rightarrow> int \<Rightarrow> string \<Rightarrow> string \<Rightarrow> out list" where
  "banner pub port bname pw =
     [Box_title Title_relay,
      Dim_line Note_relay,
      Blank,
      Info_kv ''Public host/IP'' pub,
      Info_kv ''Port'' (str_int port),
      Info_kv ''Filename'' bname,
      Info_kv ''Password (encrypted mode)'' pw,
      Box_footer,
      Blank]"

definition fn_cmd :: "string \<Rightarrow> string \<Rightarrow> string \<Rightarrow> string" where
  "fn_cmd body pw file0 = ''d(){ '' @ body @ '' }; d '' @ pw @ '' '' @ file0"

definition print_sender_commands :: "string \<Rightarrow> int \<Rightarrow> string \<Rightarrow> string \<Rightarrow> out list" where
  \<open>print_sender_commands pub port bname pw =
     (let tcp = ''/dev/tcp/'' @ pub @ ''/'' @ str_int port
      in [Box_title Title_sender,
          Dim_line Note_sender,
          Mode_header ''Plain'',
          Cmd_block (''cat >'' @ tcp @ '' < '' @ bname),
          Cmd_block (''bash -c 'cat >"'' @ tcp @ ''" < "$1"' '' @ pw @ '' '' @ bname),
          Mode_header ''Plain+sha256sum'',
          Cmd_block (fn_cmd (''sha256sum "$2" && cat >"'' @ tcp @ ''" <"$2";'') pw bname),
          Cmd_block (''bash -c 'f="$1";sha256sum "$f"&&cat >"'' @ tcp @ ''" < "$f"' ''
                     @ pw @ '' '' @ bname),
          Mode_header ''Encrypted+sha256sum'',
          Cmd_block (fn_cmd (''sha256sum "$2" && openssl enc -aes-256-cbc -pbkdf2 -salt ''
                             @ ''-pass pass:$1 <"$2" >"'' @ tcp @ ''";'') pw bname),
          Cmd_block (''bash -c 'f="$1";sha256sum "$f"&&''
                     @ ''openssl enc -aes-256-cbc -pbkdf2 -salt -pass pass:"$0" < "$f" >"''
                     @ tcp @ ''"' '' @ pw @ '' '' @ bname),
          Box_footer,
          Blank])\<close>

definition print_receiver_commands :: "string \<Rightarrow> int \<Rightarrow> string \<Rightarrow> string \<Rightarrow> out list" where
  \<open>print_receiver_commands pub port bname pw =
     (let tcp = ''/dev/tcp/'' @ pub @ ''/'' @ str_int port
      in [Box_title Title_receiver,
          Dim_line Note_receiver,
          Mode_header ''Plain'',
          Cmd_block (''cat <'' @ tcp @ '' > '' @ bname),
          Cmd_block (''bash -c 'cat <"'' @ tcp @ ''" > "$1"' '' @ pw @ '' '' @ bname),
          Mode_header ''Plain+sha256sum'',
          Cmd_block (fn_cmd (''cat <"'' @ tcp @ ''" >"$2" && sha256sum "$2";'') pw bname),
          Cmd_block (''bash -c 'f="$1";cat <"'' @ tcp @ ''" > "$f"&&sha256sum "$f"' ''
                     @ pw @ '' '' @ bname),
          Mode_header ''Encrypted+sha256sum'',
          Cmd_block (fn_cmd (''openssl enc -d -aes-256-cbc -pbkdf2 -pass pass:$1 <"'' @ tcp
                             @ ''" >"$2" && sha256sum "$2";'') pw bname),
          Cmd_block (''bash -c 'f="$1";openssl enc -d -aes-256-cbc -pbkdf2 -pass pass:"$0" < "''
                     @ tcp @ ''" > "$f"&&sha256sum "$f"' '' @ pw @ '' '' @ bname),
          Box_footer,
          Blank])\<close>

subsection \<open>The program\<close>

text \<open>The parsed command line: \<^verbatim>\<open>pub\<close>, \<^verbatim>\<open>filename\<close>, \<^verbatim>\<open>password\<close> and \<^verbatim>\<open>port\<close>.\<close>

record args =
  arg_pub :: string
  arg_filename :: string
  arg_password :: "string option"
  arg_port :: int

text \<open>The outside world of one run.\<close>

record env =
  random :: "nat \<Rightarrow> nat"
  up_bind_ok :: bool
  up_ephemeral :: int
  uploaders :: "incoming list"
  down_bind_ok :: bool
  down_ephemeral :: int
  downloader :: down_incoming
  remove_denied :: bool
  rmdir_denied :: bool

text \<open>
  How the process ends: it exits with a status (0 when \<^verbatim>\<open>main\<close> returns), it dies of
  an exception nobody caught, or it never ends.
\<close>

datatype exit_status = Exited int | Crashed exn | Hangs

text \<open>
  What a run did: its actions in order, the staged file's content when the upload phase
  ended, the bytes that went out to the download client, and what is left on disk.
\<close>

record run =
  status :: exit_status
  actions :: "action list"
  staged :: "bytes option"
  wire :: bytes
  left_file :: "bytes option"
  left_dir :: bool

text \<open>An empty password counts as none given: \<^verbatim>\<open>args.password if args.password else ...\<close>.\<close>

definition the_password :: "args \<Rightarrow> (nat \<Rightarrow> nat) \<Rightarrow> string" where
  "the_password a rnd =
     (case arg_password a of
        Some p \<Rightarrow> if p \<noteq> [] then p else gen_password 10 rnd
      | None \<Rightarrow> gen_password 10 rnd)"

definition main :: "args \<Rightarrow> env \<Rightarrow> run" where
  "main a e =
     (let pub = arg_pub a;
          bname = arg_filename a;
          pw = the_password a (random e);
          port = arg_port a;
          a0 = Mkdtemp # map Print
                 (Blank # banner pub port bname pw
                  @ print_sender_commands pub port bname pw
                  @ print_receiver_commands pub port bname pw
                  @ [Box_title Title_waiting, Dim_line Note_waiting, Box_footer])
      in case accept_upload port (up_bind_ok e) (up_ephemeral e) (uploaders e) None of
           (Diverge, file, a1) \<Rightarrow>
             \<lparr>status = Hangs, actions = a0 @ a1, staged = file, wire = [],
              left_file = file, left_dir = True\<rparr>
         | (Raise x, file, a1) \<Rightarrow>
             if x = KeyboardInterrupt
             then (case cleanup (remove_denied e) (rmdir_denied e) file True of
                     (file', dir', a2) \<Rightarrow>
                       \<lparr>status = Exited 130,
                        actions = a0 @ a1 @ [Print (Msg Interrupted_upload)] @ a2 @ [Sys_exit 130],
                        staged = file, wire = [], left_file = file', left_dir = dir'\<rparr>)
             else \<lparr>status = Crashed x, actions = a0 @ a1, staged = file, wire = [],
                   left_file = file, left_dir = True\<rparr>
         | (Return sz, file, a1) \<Rightarrow>
             let a2 = map Print [Upload_complete sz, Blank, Box_title Title_ready,
                                 Dim_line Note_ready, Box_footer]
             in (case serve_download port (down_bind_ok e) (down_ephemeral e) (downloader e) file of
                   (Diverge, w, a3) \<Rightarrow>
                     \<lparr>status = Hangs, actions = a0 @ a1 @ a2 @ a3, staged = file, wire = w,
                      left_file = file, left_dir = True\<rparr>
                 | (Raise x, w, a3) \<Rightarrow>
                     if x = KeyboardInterrupt
                     then (case cleanup (remove_denied e) (rmdir_denied e) file True of
                             (file', dir', a4) \<Rightarrow>
                               \<lparr>status = Exited 0,
                                actions = a0 @ a1 @ a2 @ a3 @ [Print (Msg Interrupted_download)]
                                          @ a4 @ [Print (Msg Done)],
                                staged = file, wire = w, left_file = file', left_dir = dir'\<rparr>)
                     else \<lparr>status = Crashed x, actions = a0 @ a1 @ a2 @ a3, staged = file,
                           wire = w, left_file = file, left_dir = True\<rparr>
                 | (Return u, w, a3) \<Rightarrow>
                     (case cleanup (remove_denied e) (rmdir_denied e) file True of
                        (file', dir', a4) \<Rightarrow>
                          \<lparr>status = Exited 0,
                           actions = a0 @ a1 @ a2 @ a3 @ [Print (Msg Download_complete)]
                                     @ a4 @ [Print (Msg Done)],
                           staged = file, wire = w, left_file = file', left_dir = dir'\<rparr>)))"

section \<open>What the properties speak about\<close>

subsection \<open>What a peer sends\<close>

text \<open>
  The bytes a peer sends before its stream ends, and how the stream ends for a reader that
  waits without a timeout: the peer closes (\<open>Return\<close>), the connection breaks or the
  operator interrupts (\<open>Raise\<close>), or nothing more ever comes (\<open>Diverge\<close>).
\<close>

fun stream :: "peer_event list \<Rightarrow> bytes" where
  "stream [] = []"
| "stream (Data d bs # es) = (if bs = [] then [] else bs @ stream es)"
| "stream (Reset d # es) = []"
| "stream (CtrlC d # es) = []"

fun ending :: "peer_event list \<Rightarrow> unit outcome" where
  "ending [] = Diverge"
| "ending (Data d bs # es) = (if bs = [] then Return () else ending es)"
| "ending (Reset d # es) = Raise OSError"
| "ending (CtrlC d # es) = Raise KeyboardInterrupt"

text \<open>What the first receive on a fresh connection yields, under the probe timeout.\<close>

definition first_recv :: "peer_event list \<Rightarrow> bytes outcome" where
  "first_recv evs = fst (recv CHUNK_SIZE (settimeout (Some PROBE_WAIT) (new_conn evs)))"

text \<open>
  A probe: no data within the probe timeout, or closed without sending. A sender: the
  first receive returns a chunk that is not empty.
\<close>

definition is_probe :: "peer_event list \<Rightarrow> bool" where
  "is_probe evs = (first_recv evs = Raise Timeout \<or> first_recv evs = Return [])"

definition is_sender :: "peer_event list \<Rightarrow> bool" where
  "is_sender evs = (case first_recv evs of Return b \<Rightarrow> b \<noteq> [] | _ \<Rightarrow> False)"

text \<open>
  A connection that the loop passes over without an interrupt: one that is no sender and
  whose first receive is not interrupted (a probe, or reset at once), or a sender whose
  copy fails with an error.
\<close>

definition passed_over :: "peer_event list \<Rightarrow> bool" where
  "passed_over evs =
     (if is_sender evs then ending evs = Raise OSError
      else first_recv evs \<noteq> Raise KeyboardInterrupt)"

text \<open>The actions of handling a probe.\<close>

definition probe_trace :: "action list" where
  "probe_trace =
     [Set_timeout (Some PROBE_WAIT), Recv (Some PROBE_WAIT), Set_timeout None, Close_conn]"

text \<open>
  How the way a sender's stream ends makes the handling of its connection leave the
  outer loop, and whether the connection is closed on the way.
\<close>

fun step_of :: "unit outcome \<Rightarrow> step" where
  "step_of (Return u) = Break"
| "step_of (Raise e) = (if is_Exception e then Continue else Propagate e)"
| "step_of Diverge = Stuck"

fun closing :: "step \<Rightarrow> action list" where
  "closing Break = [Close_conn]"
| "closing Continue = [Close_conn]"
| "closing st = []"

subsection \<open>Reading the list of actions\<close>

text \<open>The timeout in force at each receive, and the timeouts set, in order.\<close>

fun recv_timeouts :: "action list \<Rightarrow> real option list" where
  "recv_timeouts [] = []"
| "recv_timeouts (Recv t # xs) = t # recv_timeouts xs"
| "recv_timeouts (x # xs) = recv_timeouts xs"

fun set_timeouts :: "action list \<Rightarrow> real option list" where
  "set_timeouts [] = []"
| "set_timeouts (Set_timeout t # xs) = t # set_timeouts xs"
| "set_timeouts (x # xs) = set_timeouts xs"

text \<open>How many times the upload socket accepted a connection.\<close>

fun accepts :: "action list \<Rightarrow> nat" where
  "accepts [] = 0"
| "accepts (Accept Up_sock # xs) = Suc (accepts xs)"
| "accepts (x # xs) = accepts xs"

text \<open>Actions on an accepted connection or on the staged file's content.\<close>

fun transfer :: "action \<Rightarrow> bool" where
  "transfer (Accept s) = True"
| "transfer (Set_timeout t) = True"
| "transfer (Recv t) = True"
| "transfer Close_conn = True"
| "transfer Open_wb = True"
| "transfer (Write b) = True"
| "transfer Open_rb = True"
| "transfer Read_chunk = True"
| "transfer (Sendall b) = True"
| "transfer Shutdown_wr = True"
| "transfer x = False"

fun is_print :: "action \<Rightarrow> bool" where
  "is_print (Print x) = True"
| "is_print x = False"

text \<open>What \<^verbatim>\<open>main\<close> does before the upload phase: the staging directory and the printed help.\<close>

definition prelude :: "args \<Rightarrow> env \<Rightarrow> action list" where
  "prelude a e =
     Mkdtemp # map Print
       (Blank # banner (arg_pub a) (arg_port a) (arg_filename a) (the_password a (random e))
        @ print_sender_commands (arg_pub a) (arg_port a) (arg_filename a)
            (the_password a (random e))
        @ print_receiver_commands (arg_pub a) (arg_port a) (arg_filename a)
            (the_password a (random e))
        @ [Box_title Title_waiting, Dim_line Note_waiting, Box_footer])"

text \<open>A run with what it printed left out.\<close>

definition unprinted :: "run \<Rightarrow> run" where
  "unprinted r = r\<lparr>actions := filter (\<lambda>x. \<not> is_print x) (actions r)\<rparr>"

text \<open>
  Whether a listening socket is open after a list of actions, \<open>b\<close> telling whether it
  was open before.
\<close>

fun is_open :: "sock \<Rightarrow> bool \<Rightarrow> action list \<Rightarrow> bool" where
  "is_open s b [] = b"
| "is_open s b (Listen s' p # xs) = is_open s (s' = s \<or> b) xs"
| "is_open s b (Close_listener s' # xs) = is_open s (s' \<noteq> s \<and> b) xs"
| "is_open s b (x # xs) = is_open s b xs"

text \<open>
  The order of the two phases as an automaton over the actions: the upload socket
  listens, is closed, the upload is reported complete, the download socket listens, is
  closed. An action out of this order has no successor state.
\<close>

datatype phase = Before | Up_open | Up_closed | Uploaded | Down_open | Down_closed

fun phase_step :: "phase \<Rightarrow> action \<Rightarrow> phase option" where
  "phase_step ph (Listen Up_sock p) = (if ph = Before then Some Up_open else None)"
| "phase_step ph (Close_listener Up_sock) = (if ph = Up_open then Some Up_closed else None)"
| "phase_step ph (Print (Upload_complete n)) =
     (if ph = Up_closed then Some Uploaded else None)"
| "phase_step ph (Listen Down_sock p) = (if ph = Uploaded then Some Down_open else None)"
| "phase_step ph (Close_listener Down_sock) =
     (if ph = Down_open then Some Down_closed else None)"
| "phase_step ph x = Some ph"

fun phase_run :: "phase \<Rightarrow> action list \<Rightarrow> phase option" where
  "phase_run ph [] = Some ph"
| "phase_run ph (x # xs) =
     (case phase_step ph x of None \<Rightarrow> None | Some ph' \<Rightarrow> phase_run ph' xs)"

subsection \<open>Characters\<close>

definition is_ascii_letter :: "char \<Rightarrow> bool" where
  "is_ascii_letter c =
     (let n = (of_char c :: nat) in (65 \<le> n \<and> n \<le> 90) \<or> (97 \<le> n \<and> n \<le> 122))"

definition is_ascii_digit :: "char \<Rightarrow> bool" where
  "is_ascii_digit c = (let n = (of_char c :: nat) in 48 \<le> n \<and> n \<le> 57)"

subsection \<open>Example runs\<close>

text \<open>
  A command line without a password, and three worlds. In the first a probe comes, then
  a sender that is reset after two bytes, then a sender whose stream runs to its end (its
  second chunk after fifty seconds), and the download client takes all it is sent. In the
  second the only sender completes and the download client breaks the connection at the
  first chunk. In the third the operator interrupts the wait for an upload.
\<close>

definition example_args :: args where
  "example_args =
     \<lparr>arg_pub = ''relay.example'', arg_filename = ''file'', arg_password = None,
      arg_port = 9000\<rparr>"

definition example_env :: env where
  "example_env =
     \<lparr>random = id, up_bind_ok = True, up_ephemeral = 49152,
      uploaders = [Connect [],
                   Connect [Data 0 [1, 2], Reset 1],
                   Connect [Data 1 [3], Data 50 [4, 5], Data 0 []]],
      down_bind_ok = True, down_ephemeral = 49153, downloader = Client [],
      remove_denied = False, rmdir_denied = False\<rparr>"

definition broken_download_env :: env where
  "broken_download_env =
     \<lparr>random = id, up_bind_ok = True, up_ephemeral = 49152,
      uploaders = [Connect [Data 0 [1], Data 0 []]],
      down_bind_ok = True, down_ephemeral = 49153, downloader = Client [Send_error 0],
      remove_denied = False, rmdir_denied = False\<rparr>"

definition interrupted_env :: env where
  "interrupted_env =
     \<lparr>random = id, up_bind_ok = True, up_ephemeral = 49152,
      uploaders = [Connect [], Interrupt],
      down_bind_ok = True, down_ephemeral = 49153, downloader = No_client,
      remove_denied = True, rmdir_denied = False\<rparr>"

section \<open>Proofs\<close>

subsection \<open>Receiving and the copy loop\<close>


lemma CHUNK_SIZE_pos: "0 < CHUNK_SIZE"
  by (simp add: CHUNK_SIZE_def)

lemma timeout_recv: "recv n c = (r, c') \<Longrightarrow> timeout c' = timeout c"
  by (auto simp: recv_def split: list.splits option.splits if_splits prod.splits)

lemma recv_blocking:
  "timeout c = None \<Longrightarrow>
   recv n c = (case inbox c of [] \<Rightarrow> (Diverge, c)
               | e # es \<Rightarrow> (case deliver n e es of (r, es') \<Rightarrow> (r, c\<lparr>inbox := es'\<rparr>)))"
  by (simp add: recv_def split: list.splits)

lemma deliver_chunk:
  assumes "0 < n" and "deliver n e es = (Return b, es')" and "b \<noteq> []"
  shows "b @ stream es' = stream (e # es) \<and> ending es' = ending (e # es)"
proof (cases e)
  case (Data d bs)
  with assms show ?thesis
    by (cases "n < length bs") auto
qed (use assms in auto)

lemma deliver_empty:
  assumes "0 < n" and "deliver n e es = (Return [], es')"
  shows "stream (e # es) = [] \<and> ending (e # es) = Return ()"
  using assms by (cases e) auto

lemma deliver_raise:
  assumes "deliver n e es = (Raise x, es')"
  shows "stream (e # es) = [] \<and> ending (e # es) = Raise x"
  using assms by (cases e) auto

lemma deliver_not_Diverge: "deliver n e es \<noteq> (Diverge, es')"
  by (cases e) auto

lemma copy_loop_result:
  "timeout c = None \<Longrightarrow>
   \<exists>a. copy_loop c f sz =
     (ending (inbox c), f @ stream (inbox c), sz + length (stream (inbox c)), a)"
proof (induction c f sz rule: copy_loop.induct)
  case (1 c f sz)
  obtain r c' where rc: "recv CHUNK_SIZE c = (r, c')"
    by (cases "recv CHUNK_SIZE c")
  show ?case
  proof (cases "inbox c")
    case Nil
    with 1(2) show ?thesis
      by (simp add: copy_loop.simps [of c] recv_blocking)
  next
    case (Cons e es)
    obtain r' es' where d: "deliver CHUNK_SIZE e es = (r', es')"
      by (cases "deliver CHUNK_SIZE e es")
    with Cons 1(2) rc have r: "r' = r" and c': "c' = c\<lparr>inbox := es'\<rparr>"
      by (simp_all add: recv_blocking)
    show ?thesis
    proof (cases r)
      case (Return data)
      show ?thesis
      proof (cases "data = []")
        case True
        with Return d r Cons rc show ?thesis
          using deliver_empty [OF CHUNK_SIZE_pos, of e es es']
          by (simp add: copy_loop.simps [of c])
      next
        case False
        from 1(2) c' have "timeout c' = None"
          by simp
        with 1(1) [OF rc [symmetric] Return False] obtain a where
          "copy_loop c' (f @ data) (sz + length data) =
             (ending (inbox c'), (f @ data) @ stream (inbox c'),
              (sz + length data) + length (stream (inbox c')), a)"
          by blast
        moreover from deliver_chunk [OF CHUNK_SIZE_pos, of e es data es'] d r Return False
        have "data @ stream es' = stream (e # es)" "ending es' = ending (e # es)"
          by simp_all
        moreover have "length (stream (e # es)) = length data + length (stream es')"
          using calculation(2) by (metis length_append)
        ultimately show ?thesis
          using Return False rc Cons c'
          by (simp add: copy_loop.simps [of c])
      qed
    next
      case (Raise x)
      with d r Cons rc show ?thesis
        using deliver_raise [of CHUNK_SIZE e es x es']
        by (simp add: copy_loop.simps [of c])
    next
      case Diverge
      with d r show ?thesis
        using deliver_not_Diverge [of CHUNK_SIZE e es es'] by simp
    qed
  qed
qed

lemma copy_loop_actions:
  "copy_loop c f sz = (r, f', sz', a) \<Longrightarrow>
   \<forall>x\<in>set a. x = Recv (timeout c) \<or> (\<exists>b. x = Write b)"
proof (induction c f sz arbitrary: r f' sz' a rule: copy_loop.induct)
  case (1 c f sz)
  obtain r1 c' where rc: "recv CHUNK_SIZE c = (r1, c')"
    by (cases "recv CHUNK_SIZE c")
  show ?case
  proof (cases r1)
    case (Return data)
    show ?thesis
    proof (cases "data = []")
      case True
      with Return rc 1(2) show ?thesis
        by (auto simp: copy_loop.simps [of c])
    next
      case False
      obtain r2 f2 sz2 a2 where rec: "copy_loop c' (f @ data) (sz + length data) = (r2, f2, sz2, a2)"
        by (cases "copy_loop c' (f @ data) (sz + length data)")
      from 1(1) [OF rc [symmetric] Return False rec] timeout_recv [OF rc]
      have "\<forall>x\<in>set a2. x = Recv (timeout c) \<or> (\<exists>b. x = Write b)"
        by simp
      moreover from 1(2) Return False rc rec have "a = Recv (timeout c) # Write data # a2"
        by (simp add: copy_loop.simps [of c])
      ultimately show ?thesis
        by auto
    qed
  next
    case (Raise x)
    with rc 1(2) show ?thesis
      by (auto simp: copy_loop.simps [of c])
  next
    case Diverge
    with rc 1(2) show ?thesis
      by (auto simp: copy_loop.simps [of c])
  qed
qed

subsection \<open>Handling one connection\<close>

lemma first_recv_cases:
  "first_recv evs =
     (case evs of [] \<Rightarrow> Raise Timeout
      | e # es \<Rightarrow> if PROBE_WAIT \<le> delay e then Raise Timeout
                  else fst (deliver CHUNK_SIZE e es))"
  by (simp add: first_recv_def recv_def settimeout_def new_conn_def
      split: list.splits prod.splits)

lemma fst_deliver_not_Diverge: "fst (deliver n e es) \<noteq> Diverge"
  by (cases e) auto

lemma first_recv_not_Diverge: "first_recv evs \<noteq> Diverge"
  by (simp add: first_recv_cases fst_deliver_not_Diverge split: list.splits)

lemma first_recv_conn:
  "recv CHUNK_SIZE (settimeout (Some PROBE_WAIT) (new_conn evs)) = (r, c) \<Longrightarrow>
   first_recv evs = r \<and> timeout c = Some PROBE_WAIT"
  by (auto simp: first_recv_def settimeout_def new_conn_def dest: timeout_recv)

lemma attempt_probe:
  assumes "is_probe evs"
  shows "upload_attempt (new_conn evs) file sz = (Continue, file, sz, probe_trace)"
proof -
  obtain r c where rc: "recv CHUNK_SIZE (settimeout (Some PROBE_WAIT) (new_conn evs)) = (r, c)"
    by (cases "recv CHUNK_SIZE (settimeout (Some PROBE_WAIT) (new_conn evs))")
  with assms first_recv_conn [OF rc] have "r = Raise Timeout \<or> r = Return []"
    by (simp add: is_probe_def)
  with rc show ?thesis
    by (auto simp: upload_attempt_def probe_trace_def Let_def settimeout_def new_conn_def)
qed

lemma sender_first:
  assumes "is_sender evs"
  obtains d bs es where "evs = Data d bs # es" and "d < PROBE_WAIT" and "bs \<noteq> []"
    and "first_recv evs = Return (take CHUNK_SIZE bs)"
proof (cases evs)
  case Nil
  with assms show ?thesis
    by (simp add: is_sender_def first_recv_cases)
next
  case (Cons e es)
  with assms that show ?thesis
    by (cases e) (auto simp: is_sender_def first_recv_cases split: if_splits)
qed

lemma attempt_sender:
  assumes "is_sender evs"
  shows "\<exists>b a. first_recv evs = Return b \<and> b \<noteq> [] \<and>
           upload_attempt (new_conn evs) file sz =
             (step_of (ending evs), Some (stream evs), sz + length (stream evs),
              [Set_timeout (Some PROBE_WAIT), Recv (Some PROBE_WAIT), Set_timeout None,
               Open_wb, Write b] @ a @ closing (step_of (ending evs))) \<and>
           (\<forall>x\<in>set a. x = Recv None \<or> (\<exists>w. x = Write w))"
proof -
  from assms obtain d bs es where evs: "evs = Data d bs # es" and d: "d < PROBE_WAIT"
    and bs: "bs \<noteq> []" and fr: "first_recv evs = Return (take CHUNK_SIZE bs)"
    by (rule sender_first)
  let ?b = "take CHUNK_SIZE bs"
  let ?es' = "if CHUNK_SIZE < length bs then Data 0 (drop CHUNK_SIZE bs) # es else es"
  let ?c3 = "\<lparr>timeout = None, inbox = ?es'\<rparr>"
  have b: "?b \<noteq> []"
    using bs CHUNK_SIZE_pos by simp
  have del: "deliver CHUNK_SIZE (Data d bs) es = (Return ?b, ?es')"
    by simp
  from deliver_chunk [OF CHUNK_SIZE_pos del b]
  have st: "?b @ stream ?es' = stream evs" and en: "ending ?es' = ending evs"
    by (simp_all add: evs)
  have rc: "recv CHUNK_SIZE (settimeout (Some PROBE_WAIT) (new_conn evs))
      = (Return ?b, \<lparr>timeout = Some PROBE_WAIT, inbox = ?es'\<rparr>)"
    using d by (simp add: recv_def settimeout_def new_conn_def evs)
  obtain a where cl: "copy_loop ?c3 ([] @ ?b) (sz + length ?b) =
      (ending ?es', ([] @ ?b) @ stream ?es', (sz + length ?b) + length (stream ?es'), a)"
    using copy_loop_result [of ?c3 "[] @ ?b" "sz + length ?b"] by auto
  have acts: "\<forall>x\<in>set a. x = Recv None \<or> (\<exists>w. x = Write w)"
    using copy_loop_actions [OF cl] by simp
  have len: "length ?b + length (stream ?es') = length (stream evs)"
    using st by (metis length_append)
  have "upload_attempt (new_conn evs) file sz =
      (step_of (ending evs), Some (stream evs), sz + length (stream evs),
       [Set_timeout (Some PROBE_WAIT), Recv (Some PROBE_WAIT), Set_timeout None,
        Open_wb, Write ?b] @ a @ closing (step_of (ending evs)))"
    using b cl st en len
    by (cases "ending evs")
       (simp_all add: upload_attempt_def Let_def rc [unfolded settimeout_def] settimeout_def
          add.assoc)
  with fr b acts show ?thesis
    by blast
qed

lemma attempt_no_sender:
  assumes "\<not> is_sender evs"
  shows "\<exists>st a. upload_attempt (new_conn evs) file sz = (st, file, sz, a) \<and> st \<noteq> Break
           \<and> (a = probe_trace
              \<or> a = [Set_timeout (Some PROBE_WAIT), Recv (Some PROBE_WAIT), Close_conn]
              \<or> a = [Set_timeout (Some PROBE_WAIT), Recv (Some PROBE_WAIT)])"
proof -
  obtain r c where rc: "recv CHUNK_SIZE (settimeout (Some PROBE_WAIT) (new_conn evs)) = (r, c)"
    by (cases "recv CHUNK_SIZE (settimeout (Some PROBE_WAIT) (new_conn evs))")
  from first_recv_conn [OF rc] have fr: "first_recv evs = r"
    by simp
  with assms have "r = Return [] \<or> (\<exists>x. r = Raise x)"
    using first_recv_not_Diverge [of evs]
    by (cases r) (auto simp: is_sender_def)
  then show ?thesis
  proof
    assume "r = Return []"
    with rc show ?thesis
      by (simp add: upload_attempt_def probe_trace_def Let_def settimeout_def new_conn_def)
  next
    assume "\<exists>x. r = Raise x"
    then obtain x where "r = Raise x" ..
    with rc show ?thesis
      by (cases x)
         (simp_all add: upload_attempt_def probe_trace_def Let_def settimeout_def new_conn_def)
  qed
qed

subsection \<open>Probes\<close>

text \<open>
  C9. A probe leaves the staged storage unchanged: for a connection whose first receive
  returns no bytes (the probe timeout passes, or the peer closes at once) the handling
  ends in \<^verbatim>\<open>continue\<close> with the staged file as it was (not created when it did not
  exist, not rewritten when it did), with the byte count as it was, and the actions
  performed are the two timeout settings, the one receive and the close: no open of the
  file and no write.
\<close>

theorem probe_leaves_storage_unchanged:
  assumes "first_recv evs = Raise Timeout \<or> first_recv evs = Return []"
  shows "upload_attempt (new_conn evs) file sz =
     (Continue, file, sz,
      [Set_timeout (Some PROBE_WAIT), Recv (Some PROBE_WAIT), Set_timeout None, Close_conn])"
proof -
  from assms have "is_probe evs"
    by (simp add: is_probe_def)
  from attempt_probe [OF this] show ?thesis
    by (simp add: probe_trace_def)
qed

theorem probe_leaves_storage_unchanged_witness:
  "first_recv [Data 5 [1]] = Raise Timeout \<and>
   upload_attempt (new_conn [Data 5 [1]]) (Some [7, 7]) 3 =
     (Continue, Some [7, 7], 3,
      [Set_timeout (Some PROBE_WAIT), Recv (Some PROBE_WAIT), Set_timeout None, Close_conn])"
proof -
  have h: "first_recv [Data 5 [1]] = Raise Timeout"
    by (simp add: first_recv_cases PROBE_WAIT_def)
  then have "first_recv [Data 5 [1]] = Raise Timeout \<or> first_recv [Data 5 [1]] = Return []"
    by simp
  from probe_leaves_storage_unchanged [OF this, of "Some [7, 7]" 3] h show ?thesis
    by simp
qed

subsection \<open>The accept loop\<close>

lemma transfer_only_timeouts:
  "\<forall>x\<in>set a. x = Recv None \<or> (\<exists>w. x = Write w) \<Longrightarrow>
   recv_timeouts a = replicate (length (recv_timeouts a)) None \<and> set_timeouts a = []
   \<and> accepts a = 0"
  by (induction a) auto

lemma recv_timeouts_append: "recv_timeouts (xs @ ys) = recv_timeouts xs @ recv_timeouts ys"
  by (induction xs rule: recv_timeouts.induct) auto

lemma set_timeouts_append: "set_timeouts (xs @ ys) = set_timeouts xs @ set_timeouts ys"
  by (induction xs rule: set_timeouts.induct) auto

lemma accepts_append: "accepts (xs @ ys) = accepts xs + accepts ys"
  by (induction xs rule: accepts.induct) auto

lemma closing_plain:
  "recv_timeouts (closing st) = [] \<and> set_timeouts (closing st) = [] \<and> accepts (closing st) = 0"
  by (cases st) auto

lemma accept_loop_probe:
  assumes "is_probe p"
  shows "accept_loop (Connect p # rest) file sz =
     (case accept_loop rest file sz of (r, f, a) \<Rightarrow> (r, f, Accept Up_sock # probe_trace @ a))"
  using attempt_probe [OF assms] by (simp split: prod.splits)

lemma accept_loop_probes:
  assumes "\<forall>p\<in>set probes. is_probe p"
  shows "accept_loop (map Connect probes @ rest) file sz =
     (case accept_loop rest file sz of
        (r, f, a) \<Rightarrow> (r, f, concat (replicate (length probes) (Accept Up_sock # probe_trace)) @ a))"
  using assms
proof (induction probes)
  case Nil
  then show ?case by simp
next
  case (Cons p probes)
  then have p: "is_probe p" and IH: "accept_loop (map Connect probes @ rest) file sz =
     (case accept_loop rest file sz of
        (r, f, a) \<Rightarrow> (r, f, concat (replicate (length probes) (Accept Up_sock # probe_trace)) @ a))"
    by simp_all
  show ?case
    using accept_loop_probe [OF p, of "map Connect probes @ rest"]
    by (simp add: IH del: accept_loop.simps split: prod.splits)
qed

lemma ending_cases:
  "ending evs = Return () \<or> ending evs = Raise OSError
   \<or> ending evs = Raise KeyboardInterrupt \<or> ending evs = Diverge"
  by (induction evs rule: ending.induct) auto


lemma accept_loop_sender:
  assumes "is_sender evs"
  shows "\<exists>b a. first_recv evs = Return b \<and> b \<noteq> [] \<and> accepts a = 0 \<and>
     (\<forall>rest. accept_loop (Connect evs # rest) file sz =
       (case step_of (ending evs) of
          Break \<Rightarrow> (Return (sz + length (stream evs)), Some (stream evs),
                    [Accept Up_sock, Set_timeout (Some PROBE_WAIT), Recv (Some PROBE_WAIT),
                     Set_timeout None, Open_wb, Write b] @ a @ [Close_conn])
        | Continue \<Rightarrow>
            (case accept_loop rest (Some (stream evs)) (sz + length (stream evs)) of
               (r, f, a') \<Rightarrow>
                 (r, f, [Accept Up_sock, Set_timeout (Some PROBE_WAIT), Recv (Some PROBE_WAIT),
                         Set_timeout None, Open_wb, Write b] @ a @ [Close_conn] @ a'))
        | Propagate e \<Rightarrow> (Raise e, Some (stream evs),
                    [Accept Up_sock, Set_timeout (Some PROBE_WAIT), Recv (Some PROBE_WAIT),
                     Set_timeout None, Open_wb, Write b] @ a)
        | Stuck \<Rightarrow> (Diverge, Some (stream evs),
                    [Accept Up_sock, Set_timeout (Some PROBE_WAIT), Recv (Some PROBE_WAIT),
                     Set_timeout None, Open_wb, Write b] @ a)))"
proof -
  from attempt_sender [OF assms] obtain b a where
    b: "first_recv evs = Return b" "b \<noteq> []" and
    att: "upload_attempt (new_conn evs) file sz =
             (step_of (ending evs), Some (stream evs), sz + length (stream evs),
              [Set_timeout (Some PROBE_WAIT), Recv (Some PROBE_WAIT), Set_timeout None,
               Open_wb, Write b] @ a @ closing (step_of (ending evs)))" and
    a: "\<forall>x\<in>set a. x = Recv None \<or> (\<exists>w. x = Write w)"
    by blast
  from transfer_only_timeouts [OF a] have "accepts a = 0"
    by simp
  moreover have "accept_loop (Connect evs # rest) file sz =
       (case step_of (ending evs) of
          Break \<Rightarrow> (Return (sz + length (stream evs)), Some (stream evs),
                    [Accept Up_sock, Set_timeout (Some PROBE_WAIT), Recv (Some PROBE_WAIT),
                     Set_timeout None, Open_wb, Write b] @ a @ [Close_conn])
        | Continue \<Rightarrow>
            (case accept_loop rest (Some (stream evs)) (sz + length (stream evs)) of
               (r, f, a') \<Rightarrow>
                 (r, f, [Accept Up_sock, Set_timeout (Some PROBE_WAIT), Recv (Some PROBE_WAIT),
                         Set_timeout None, Open_wb, Write b] @ a @ [Close_conn] @ a'))
        | Propagate e \<Rightarrow> (Raise e, Some (stream evs),
                    [Accept Up_sock, Set_timeout (Some PROBE_WAIT), Recv (Some PROBE_WAIT),
                     Set_timeout None, Open_wb, Write b] @ a)
        | Stuck \<Rightarrow> (Diverge, Some (stream evs),
                    [Accept Up_sock, Set_timeout (Some PROBE_WAIT), Recv (Some PROBE_WAIT),
                     Set_timeout None, Open_wb, Write b] @ a))" for rest
    by (cases "step_of (ending evs)") (simp_all add: att split: prod.splits)
  ultimately show ?thesis
    using b by blast
qed

text \<open>
  C2. In the upload phase a connection whose first receive yields no data within the
  probe timeout, or that closes without sending, is a probe: it is closed, nothing is
  staged from it, and the loop goes on to accept the next connection (first part: the
  result on \<open>Connect p # rest\<close> is the result on \<open>rest\<close>, from the same file and size,
  after the five actions of the probe). A connection whose first receive returns a chunk
  that is not empty is the sender: the file is opened and the chunk written, and what the
  handling leaves staged is the stream of that connection (second part). After any number
  of probes, the first such connection, when its stream runs to its end, ends the loop
  with its stream staged and without a further accept (third part).
\<close>

theorem probe_versus_sender:
  "(is_probe p \<longrightarrow>
      accept_loop (Connect p # rest) file sz =
        (case accept_loop rest file sz of
           (r, f, a) \<Rightarrow>
             (r, f, [Accept Up_sock, Set_timeout (Some PROBE_WAIT), Recv (Some PROBE_WAIT),
                     Set_timeout None, Close_conn] @ a)))
   \<and> (is_sender evs \<longrightarrow>
        (\<exists>st b a. first_recv evs = Return b \<and> b \<noteq> [] \<and>
           upload_attempt (new_conn evs) file sz =
             (st, Some (stream evs), sz + length (stream evs),
              [Set_timeout (Some PROBE_WAIT), Recv (Some PROBE_WAIT), Set_timeout None,
               Open_wb, Write b] @ a)))
   \<and> ((\<forall>q\<in>set probes. is_probe q) \<and> is_sender evs \<and> ending evs = Return () \<longrightarrow>
        (\<exists>a. accept_loop (map Connect probes @ Connect evs # rest) file sz =
           (Return (sz + length (stream evs)), Some (stream evs),
            concat (replicate (length probes) (Accept Up_sock # probe_trace))
            @ Accept Up_sock # a) \<and> accepts a = 0))"
proof (intro conjI impI)
  assume "is_probe p"
  from accept_loop_probe [OF this, of rest "file" sz] show
    "accept_loop (Connect p # rest) file sz =
        (case accept_loop rest file sz of
           (r, f, a) \<Rightarrow>
             (r, f, [Accept Up_sock, Set_timeout (Some PROBE_WAIT), Recv (Some PROBE_WAIT),
                     Set_timeout None, Close_conn] @ a))"
    by (simp add: probe_trace_def del: accept_loop.simps)
next
  assume "is_sender evs"
  from attempt_sender [OF this] show
    "\<exists>st b a. first_recv evs = Return b \<and> b \<noteq> [] \<and>
           upload_attempt (new_conn evs) file sz =
             (st, Some (stream evs), sz + length (stream evs),
              [Set_timeout (Some PROBE_WAIT), Recv (Some PROBE_WAIT), Set_timeout None,
               Open_wb, Write b] @ a)"
    by blast
next
  assume h: "(\<forall>q\<in>set probes. is_probe q) \<and> is_sender evs \<and> ending evs = Return ()"
  then have pr: "\<forall>q\<in>set probes. is_probe q" and se: "is_sender evs"
    and en: "ending evs = Return ()"
    by simp_all
  from accept_loop_sender [OF se, of "file" sz] en obtain b a where
    a: "accepts a = 0" and
    al: "accept_loop (Connect evs # rest) file sz =
      (Return (sz + length (stream evs)), Some (stream evs),
       [Accept Up_sock, Set_timeout (Some PROBE_WAIT), Recv (Some PROBE_WAIT),
        Set_timeout None, Open_wb, Write b] @ a @ [Close_conn])"
    by (auto simp del: accept_loop.simps)
  let ?a = "[Set_timeout (Some PROBE_WAIT), Recv (Some PROBE_WAIT),
        Set_timeout None, Open_wb, Write b] @ a @ [Close_conn]"
  have "accepts ?a = 0"
    using a by (simp add: accepts_append)
  moreover have "accept_loop (map Connect probes @ Connect evs # rest) file sz =
           (Return (sz + length (stream evs)), Some (stream evs),
            concat (replicate (length probes) (Accept Up_sock # probe_trace))
            @ Accept Up_sock # ?a)"
    using accept_loop_probes [OF pr, of "Connect evs # rest"] al
    by (simp del: accept_loop.simps)
  ultimately show "\<exists>a. accept_loop (map Connect probes @ Connect evs # rest) file sz =
           (Return (sz + length (stream evs)), Some (stream evs),
            concat (replicate (length probes) (Accept Up_sock # probe_trace))
            @ Accept Up_sock # a) \<and> accepts a = 0"
    by blast
qed


theorem probe_versus_sender_witness:
  "is_probe [] \<and> is_sender [Data 0 [1], Data 0 []] \<and> ending [Data 0 [1], Data 0 []] = Return ()
   \<and> (\<exists>a. accept_loop [Connect [], Connect [Data 0 [1], Data 0 []], Interrupt] None 0 =
          (Return 1, Some [1], Accept Up_sock # probe_trace @ Accept Up_sock # a))"
proof -
  have p: "is_probe []"
    by (simp add: is_probe_def first_recv_cases)
  have s: "is_sender [Data 0 [1], Data 0 []]"
    by (simp add: is_sender_def first_recv_cases PROBE_WAIT_def CHUNK_SIZE_def)
  have e: "ending [Data 0 [1], Data 0 []] = Return ()"
    by simp
  have "\<forall>q\<in>set [[]]. is_probe q"
    using p by simp
  with probe_versus_sender [of "[]" "[Interrupt]" None 0 "[Data 0 [1], Data 0 []]" "[[]]"] s e
  have "\<exists>a. accept_loop [Connect [], Connect [Data 0 [1], Data 0 []], Interrupt] None 0 =
          (Return 1, Some [1], Accept Up_sock # probe_trace @ Accept Up_sock # a)"
    by (auto simp del: accept_loop.simps)
  with p s e show ?thesis
    by blast
qed





text \<open>
  C4. In the handling of one connection the probe timeout is in force for the first
  receive only: the timeouts in force at the receives, in order, are \<open>PROBE_WAIT\<close> and
  then none, as many times as there are further receives. For a sender the actions begin
  with setting the timeout to \<open>PROBE_WAIT\<close>, the first receive, and clearing the timeout;
  the timeout is not set again, and what is staged is the whole stream up to where the
  peer closes, whatever the delays of the later chunks.
\<close>

theorem probe_timeout_first_chunk_only:
  assumes "upload_attempt (new_conn evs) file sz = (st, f', sz', a)"
  shows "(\<exists>n. recv_timeouts a = Some PROBE_WAIT # replicate n None)
       \<and> (is_sender evs \<longrightarrow>
            (\<exists>a'. a = [Set_timeout (Some PROBE_WAIT), Recv (Some PROBE_WAIT), Set_timeout None] @ a'
                  \<and> set_timeouts a' = [] \<and> f' = Some (stream evs)))"
proof (cases "is_sender evs")
  case True
  from attempt_sender [OF True, of "file" sz] assms obtain b w where
    a: "a = [Set_timeout (Some PROBE_WAIT), Recv (Some PROBE_WAIT), Set_timeout None,
             Open_wb, Write b] @ w @ closing (step_of (ending evs))" and
    f': "f' = Some (stream evs)" and
    w: "\<forall>x\<in>set w. x = Recv None \<or> (\<exists>v. x = Write v)"
    by auto
  from transfer_only_timeouts [OF w] have
    rt: "recv_timeouts w = replicate (length (recv_timeouts w)) None" and st: "set_timeouts w = []"
    by simp_all
  have "recv_timeouts a = Some PROBE_WAIT # recv_timeouts w"
    by (simp add: a recv_timeouts_append closing_plain)
  with rt have 1: "\<exists>n. recv_timeouts a = Some PROBE_WAIT # replicate n None"
    by metis
  let ?a' = "[Open_wb, Write b] @ w @ closing (step_of (ending evs))"
  have "a = [Set_timeout (Some PROBE_WAIT), Recv (Some PROBE_WAIT), Set_timeout None] @ ?a'"
    by (simp add: a)
  moreover have "set_timeouts ?a' = []"
    by (simp add: set_timeouts_append st closing_plain)
  ultimately have "\<exists>a'. a = [Set_timeout (Some PROBE_WAIT), Recv (Some PROBE_WAIT),
      Set_timeout None] @ a' \<and> set_timeouts a' = [] \<and> f' = Some (stream evs)"
    using f' by blast
  with 1 show ?thesis
    by blast
next
  case False
  from attempt_no_sender [OF False, of "file" sz] assms
  have "a = probe_trace
      \<or> a = [Set_timeout (Some PROBE_WAIT), Recv (Some PROBE_WAIT), Close_conn]
      \<or> a = [Set_timeout (Some PROBE_WAIT), Recv (Some PROBE_WAIT)]"
    by auto
  then have "recv_timeouts a = Some PROBE_WAIT # replicate 0 None"
    by (auto simp: probe_trace_def)
  with False show ?thesis
    by blast
qed

theorem probe_timeout_first_chunk_only_witness:
  "is_sender [Data 1 [1], Data 60 [2], Data 3600 []]
   \<and> upload_attempt (new_conn [Data 1 [1], Data 60 [2], Data 3600 []]) None 0 =
       (Break, Some [1, 2], 2,
        [Set_timeout (Some PROBE_WAIT), Recv (Some PROBE_WAIT), Set_timeout None,
         Open_wb, Write [1], Recv None, Write [2], Recv None, Close_conn])
   \<and> recv_timeouts
        [Set_timeout (Some PROBE_WAIT), Recv (Some PROBE_WAIT), Set_timeout None,
         Open_wb, Write [1], Recv None, Write [2], Recv None, Close_conn]
       = [Some PROBE_WAIT, None, None]"
proof -
  have s: "is_sender [Data 1 [1], Data 60 [2], Data 3600 []]"
    by (simp add: is_sender_def first_recv_cases PROBE_WAIT_def CHUNK_SIZE_def)
  have u: "upload_attempt (new_conn [Data 1 [1], Data 60 [2], Data 3600 []]) None 0 =
       (Break, Some [1, 2], 2,
        [Set_timeout (Some PROBE_WAIT), Recv (Some PROBE_WAIT), Set_timeout None,
         Open_wb, Write [1], Recv None, Write [2], Recv None, Close_conn])"
    by (simp add: upload_attempt_def Let_def recv_def settimeout_def new_conn_def
        copy_loop.simps PROBE_WAIT_def CHUNK_SIZE_def)
  from probe_timeout_first_chunk_only [OF u] s u show ?thesis
    by simp
qed

lemma attempt_Break:
  assumes "upload_attempt (new_conn evs) file sz = (Break, f', sz', a)"
  shows "is_sender evs \<and> ending evs = Return () \<and> f' = Some (stream evs)"
proof (cases "is_sender evs")
  case True
  from attempt_sender [OF True, of "file" sz] assms
  have "step_of (ending evs) = Break" and "f' = Some (stream evs)"
    by auto
  with True ending_cases [of evs] show ?thesis
    by auto
next
  case False
  from attempt_no_sender [OF False, of "file" sz] assms show ?thesis
    by auto
qed

lemma accept_loop_Return:
  "accept_loop clients file sz = (Return n, file', a) \<Longrightarrow>
   \<exists>pre evs post. clients = pre @ Connect evs # post \<and> is_sender evs
     \<and> ending evs = Return () \<and> file' = Some (stream evs)"
proof (induction clients arbitrary: "file" sz a)
  case Nil
  then show ?case by simp
next
  case (Cons c clients)
  show ?case
  proof (cases c)
    case Interrupt
    with Cons.prems show ?thesis by simp
  next
    case (Connect evs)
    obtain st f1 s1 a1 where att: "upload_attempt (new_conn evs) file sz = (st, f1, s1, a1)"
      by (cases "upload_attempt (new_conn evs) file sz")
    show ?thesis
    proof (cases st)
      case Break
      with att Cons.prems Connect have "file' = f1"
        by simp
      with attempt_Break [OF att [unfolded Break]] Connect show ?thesis
        by (metis append_Nil)
    next
      case Continue
      obtain r2 f2 a2 where rec: "accept_loop clients f1 s1 = (r2, f2, a2)"
        by (cases "accept_loop clients f1 s1")
      with att Continue Cons.prems Connect have "r2 = Return n" "f2 = file'"
        by simp_all
      with Cons.IH [of f1 s1 a2] rec obtain pre evs' post where
        "clients = pre @ Connect evs' # post" "is_sender evs'" "ending evs' = Return ()"
        "file' = Some (stream evs')"
        by blast
      then have "c # clients = (c # pre) @ Connect evs' # post"
        by simp
      with \<open>is_sender evs'\<close> \<open>ending evs' = Return ()\<close> \<open>file' = Some (stream evs')\<close>
      show ?thesis
        by blast
    next
      case (Propagate e)
      with att Cons.prems Connect show ?thesis by simp
    next
      case Stuck
      with att Cons.prems Connect show ?thesis by simp
    qed
  qed
qed

lemma accept_upload_Return:
  assumes "accept_upload port ok eph clients file = (Return n, file', a)"
  shows "\<exists>a'. accept_loop clients file 0 = (Return n, file', a')"
proof -
  obtain r f1 a1 where al: "accept_loop clients file 0 = (r, f1, a1)"
    by (cases "accept_loop clients file 0")
  with assms show ?thesis
    by (cases r) (auto simp: accept_upload_def listen_once_def split: if_splits)
qed

text \<open>
  C10. Whenever \<^verbatim>\<open>accept_upload\<close> returns normally, the staged file's content is the
  stream of exactly one of the connections, a sender whose stream ran to its end: whatever
  the file held before and whatever earlier, failed attempts wrote is gone, since each
  sender's file is opened empty.
\<close>

theorem staged_content_from_one_connection:
  assumes "accept_upload port ok eph clients file = (Return n, file', a)"
  shows "\<exists>pre evs post. clients = pre @ Connect evs # post \<and> is_sender evs
     \<and> ending evs = Return () \<and> file' = Some (stream evs)"
proof -
  from accept_upload_Return [OF assms] obtain a' where
    "accept_loop clients file 0 = (Return n, file', a')" ..
  then show ?thesis
    by (rule accept_loop_Return)
qed

theorem staged_content_from_one_connection_witness:
  "accept_upload 9000 True 0
     [Connect [Data 0 [1, 1, 1], Reset 0], Connect [Data 0 [2], Data 0 []]] (Some [9]) =
     (Return 4, Some [2],
      [Listen Up_sock 9000,
       Accept Up_sock, Set_timeout (Some PROBE_WAIT), Recv (Some PROBE_WAIT), Set_timeout None,
       Open_wb, Write [1, 1, 1], Recv None, Close_conn,
       Accept Up_sock, Set_timeout (Some PROBE_WAIT), Recv (Some PROBE_WAIT), Set_timeout None,
       Open_wb, Write [2], Recv None, Close_conn,
       Close_listener Up_sock])
   \<and> (\<exists>pre evs post.
         [Connect [Data 0 [1, 1, 1], Reset 0], Connect [Data 0 [2], Data 0 []]]
           = pre @ Connect evs # post
         \<and> is_sender evs \<and> ending evs = Return () \<and> Some [2] = Some (stream evs))"
proof -
  have u: "accept_upload 9000 True 0
     [Connect [Data 0 [1, 1, 1], Reset 0], Connect [Data 0 [2], Data 0 []]] (Some [9]) =
     (Return 4, Some [2],
      [Listen Up_sock 9000,
       Accept Up_sock, Set_timeout (Some PROBE_WAIT), Recv (Some PROBE_WAIT), Set_timeout None,
       Open_wb, Write [1, 1, 1], Recv None, Close_conn,
       Accept Up_sock, Set_timeout (Some PROBE_WAIT), Recv (Some PROBE_WAIT), Set_timeout None,
       Open_wb, Write [2], Recv None, Close_conn,
       Close_listener Up_sock])"
    by (simp add: accept_upload_def listen_once_def bound_port_def
        upload_attempt_def Let_def recv_def settimeout_def new_conn_def copy_loop.simps
        PROBE_WAIT_def CHUNK_SIZE_def)
  from staged_content_from_one_connection [OF u] u show ?thesis
    by blast
qed

subsection \<open>The actions of the two phases\<close>

lemma copy_loop_transfer:
  assumes "copy_loop c f sz = (r, f', sz', a)"
  shows "\<forall>x\<in>set a. transfer x"
  using copy_loop_actions [OF assms] by auto

lemma attempt_transfer:
  assumes "upload_attempt (new_conn evs) file sz = (st, f', sz', a)"
  shows "\<forall>x\<in>set a. transfer x"
proof (cases "is_sender evs")
  case True
  from attempt_sender [OF True, of "file" sz] assms obtain b w where
    "a = [Set_timeout (Some PROBE_WAIT), Recv (Some PROBE_WAIT), Set_timeout None,
          Open_wb, Write b] @ w @ closing (step_of (ending evs))"
    and "\<forall>x\<in>set w. x = Recv None \<or> (\<exists>v. x = Write v)"
    by auto
  then show ?thesis
    by (cases "step_of (ending evs)") auto
next
  case False
  from attempt_no_sender [OF False, of "file" sz] assms show ?thesis
    by (auto simp: probe_trace_def)
qed

lemma accept_loop_transfer:
  "accept_loop clients file sz = (r, f', a) \<Longrightarrow> \<forall>x\<in>set a. transfer x"
proof (induction clients arbitrary: "file" sz r f' a)
  case Nil
  then show ?case by auto
next
  case (Cons c clients)
  show ?case
  proof (cases c)
    case Interrupt
    with Cons.prems show ?thesis by auto
  next
    case (Connect evs)
    obtain st f1 s1 a1 where att: "upload_attempt (new_conn evs) file sz = (st, f1, s1, a1)"
      by (cases "upload_attempt (new_conn evs) file sz")
    from attempt_transfer [OF att] have a1: "\<forall>x\<in>set a1. transfer x" .
    show ?thesis
    proof (cases st)
      case Continue
      obtain r2 f2 a2 where rec: "accept_loop clients f1 s1 = (r2, f2, a2)"
        by (cases "accept_loop clients f1 s1")
      from Cons.IH [OF rec] have "\<forall>x\<in>set a2. transfer x" .
      with a1 att Continue rec Cons.prems Connect show ?thesis
        by auto
    qed (use a1 att Cons.prems Connect in auto)
  qed
qed

lemma attempt_Propagate:
  assumes "upload_attempt c file sz = (Propagate e, f', sz', a)"
  shows "e = KeyboardInterrupt"
proof -
  from assms have "\<not> is_Exception e"
    by (auto simp: upload_attempt_def Let_def
        split: prod.splits outcome.splits exn.splits if_splits)
  then show ?thesis
    by (cases e) auto
qed

lemma accept_loop_Raise:
  "accept_loop clients file sz = (Raise x, f', a) \<Longrightarrow> x = KeyboardInterrupt"
proof (induction clients arbitrary: "file" sz a f')
  case Nil
  then show ?case by simp
next
  case (Cons c clients)
  show ?case
  proof (cases c)
    case Interrupt
    with Cons.prems show ?thesis by simp
  next
    case (Connect evs)
    obtain st f1 s1 a1 where att: "upload_attempt (new_conn evs) file sz = (st, f1, s1, a1)"
      by (cases "upload_attempt (new_conn evs) file sz")
    show ?thesis
    proof (cases st)
      case Continue
      obtain r2 f2 a2 where rec: "accept_loop clients f1 s1 = (r2, f2, a2)"
        by (cases "accept_loop clients f1 s1")
      with att Continue Cons.prems Connect have "r2 = Raise x"
        by simp
      with Cons.IH rec show ?thesis
        by blast
    next
      case (Propagate e)
      with att Cons.prems Connect attempt_Propagate [OF att [unfolded Propagate]]
      show ?thesis by simp
    qed (use att Cons.prems Connect in auto)
  qed
qed

lemma accept_upload_shape:
  assumes "accept_upload port ok eph clients file = (r, f', a)"
  shows "\<exists>io. (\<forall>x\<in>set io. transfer x) \<and>
     (case r of
        Return n \<Rightarrow> a = Listen Up_sock (bound_port port eph) # io @ [Close_listener Up_sock]
      | Raise x \<Rightarrow> (a = [Bind_failed Up_sock port] \<and> x = OSError \<and> f' = file)
                   \<or> (a = Listen Up_sock (bound_port port eph) # io @ [Close_listener Up_sock]
                       \<and> x = KeyboardInterrupt)
      | Diverge \<Rightarrow> a = Listen Up_sock (bound_port port eph) # io)"
proof -
  obtain r1 f1 a1 where al: "accept_loop clients file 0 = (r1, f1, a1)"
    by (cases "accept_loop clients file 0")
  from accept_loop_transfer [OF al] have io: "\<forall>x\<in>set a1. transfer x" .
  have ki: "r1 = Raise x \<Longrightarrow> x = KeyboardInterrupt" for x
    using accept_loop_Raise al by blast
  show ?thesis
  proof (cases "0 \<le> port \<and> port \<le> 65535 \<and> ok")
    case True
    with assms al have "r = r1" and "f' = f1"
      and "a = (case r1 of Diverge \<Rightarrow> Listen Up_sock (bound_port port eph) # a1
                 | _ \<Rightarrow> Listen Up_sock (bound_port port eph) # a1 @ [Close_listener Up_sock])"
      by (auto simp: accept_upload_def listen_once_def split: outcome.splits)
    with io ki show ?thesis
      by (cases r1) auto
  next
    case False
    with assms have "r = Raise OSError" "f' = file" "a = [Bind_failed Up_sock port]"
      by (auto simp: accept_upload_def listen_once_def)
    then show ?thesis
      by (auto intro: exI [of _ "[]"])
  qed
qed


lemma send_loop_facts:
  "send_loop rest evs = (r, w, a) \<Longrightarrow>
   (\<forall>x\<in>set a. transfer x) \<and> (r = Return () \<longrightarrow> w = rest) \<and> r \<noteq> Diverge
   \<and> r \<noteq> Raise Timeout"
proof (induction rest evs arbitrary: r w a rule: send_loop.induct)
  case (1 rest evs)
  show ?case
  proof (cases "take CHUNK_SIZE rest = []")
    case True
    with 1(3) CHUNK_SIZE_pos show ?thesis
      by (subst (asm) send_loop.simps) auto
  next
    case False
    show ?thesis
    proof (cases evs)
      case Nil
      obtain r2 w2 a2 where rec: "send_loop (drop CHUNK_SIZE rest) [] = (r2, w2, a2)"
        by (cases "send_loop (drop CHUNK_SIZE rest) []")
      from 1(1) [OF refl False Nil rec] have
        "(\<forall>x\<in>set a2. transfer x) \<and> (r2 = Return () \<longrightarrow> w2 = drop CHUNK_SIZE rest)
         \<and> r2 \<noteq> Diverge \<and> r2 \<noteq> Raise Timeout" .
      moreover from 1(3) False Nil rec have "r = r2 \<and> w = take CHUNK_SIZE rest @ w2
        \<and> a = Read_chunk # Sendall (take CHUNK_SIZE rest) # a2"
        by (subst (asm) send_loop.simps) (simp add: Let_def)
      ultimately show ?thesis
        by auto
    next
      case (Cons ev evs')
      show ?thesis
      proof (cases ev)
        case Sent
        obtain r2 w2 a2 where rec: "send_loop (drop CHUNK_SIZE rest) evs' = (r2, w2, a2)"
          by (cases "send_loop (drop CHUNK_SIZE rest) evs'")
        from 1(2) [OF refl False Cons Sent rec] have
          "(\<forall>x\<in>set a2. transfer x) \<and> (r2 = Return () \<longrightarrow> w2 = drop CHUNK_SIZE rest)
           \<and> r2 \<noteq> Diverge \<and> r2 \<noteq> Raise Timeout" .
        moreover from 1(3) False Cons Sent rec have "r = r2 \<and> w = take CHUNK_SIZE rest @ w2
          \<and> a = Read_chunk # Sendall (take CHUNK_SIZE rest) # a2"
          by (subst (asm) send_loop.simps) (simp add: Let_def)
        ultimately show ?thesis
          by auto
      next
        case (Send_error k)
        with 1(3) False Cons show ?thesis
          by (subst (asm) send_loop.simps) (auto simp: Let_def)
      next
        case (Send_interrupt k)
        with 1(3) False Cons show ?thesis
          by (subst (asm) send_loop.simps) (auto simp: Let_def)
      qed
    qed
  qed
qed

lemma serve_download_shape:
  assumes "serve_download port ok eph client file = (r, w, a)"
  shows "\<exists>io. (\<forall>x\<in>set io. transfer x) \<and> r \<noteq> Raise Timeout \<and>
     (case r of
        Return u \<Rightarrow> a = Listen Down_sock (bound_port port eph) # io @ [Close_listener Down_sock]
                    \<and> (\<exists>f. file = Some f \<and> w = f)
      | Raise x \<Rightarrow> (a = [Bind_failed Down_sock port] \<and> x = OSError)
                   \<or> a = Listen Down_sock (bound_port port eph) # io @ [Close_listener Down_sock]
      | Diverge \<Rightarrow> a = Listen Down_sock (bound_port port eph) # io)"
proof (cases "0 \<le> port \<and> port \<le> 65535 \<and> ok")
  case False
  with assms have "r = Raise OSError" "a = [Bind_failed Down_sock port]"
    by (auto simp: serve_download_def listen_once_def)
  then show ?thesis
    by (auto intro: exI [of _ "[]"])
next
  case ok: True
  show ?thesis
  proof (cases client)
    case No_client
    with assms ok have "r = Diverge" "a = Listen Down_sock (bound_port port eph) # [Accept Down_sock]"
      by (auto simp: serve_download_def listen_once_def)
    then show ?thesis
      by (auto intro: exI [of _ "[Accept Down_sock]"])
  next
    case Down_interrupt
    with assms ok have "r = Raise KeyboardInterrupt"
      "a = Listen Down_sock (bound_port port eph) # [Accept Down_sock] @ [Close_listener Down_sock]"
      by (auto simp: serve_download_def listen_once_def)
    then show ?thesis
      by (auto intro: exI [of _ "[Accept Down_sock]"])
  next
    case (Client evs)
    show ?thesis
    proof (cases "file")
      case None
      with assms ok Client have "r = Raise OSError"
        "a = Listen Down_sock (bound_port port eph) # [Accept Down_sock, Open_rb, Close_conn]
             @ [Close_listener Down_sock]"
        by (auto simp: serve_download_def listen_once_def)
      then show ?thesis
        by (auto intro: exI [of _ "[Accept Down_sock, Open_rb, Close_conn]"])
    next
      case (Some f)
      obtain r2 w2 a2 where sl: "send_loop f evs = (r2, w2, a2)"
        by (cases "send_loop f evs")
      from send_loop_facts [OF sl] have a2: "\<forall>x\<in>set a2. transfer x"
        and w2: "r2 = Return () \<longrightarrow> w2 = f" and nd: "r2 \<noteq> Diverge" and nt: "r2 \<noteq> Raise Timeout"
        by simp_all
      show ?thesis
      proof (cases r2)
        case (Return u)
        with assms ok Client Some sl have "r = Return ()" "w = w2"
          "a = Listen Down_sock (bound_port port eph) # ([Accept Down_sock, Open_rb] @ a2 @ [Shutdown_wr, Close_conn])
               @ [Close_listener Down_sock]"
          by (auto simp: serve_download_def listen_once_def)
        with a2 w2 Return Some show ?thesis
          by (auto intro!: exI [of _ "[Accept Down_sock, Open_rb] @ a2 @ [Shutdown_wr, Close_conn]"])
      next
        case (Raise x)
        with assms ok Client Some sl have "r = Raise x"
          "a = Listen Down_sock (bound_port port eph) # ([Accept Down_sock, Open_rb] @ a2 @ [Close_conn])
               @ [Close_listener Down_sock]"
          by (auto simp: serve_download_def listen_once_def)
        with a2 nt Raise show ?thesis
          by (auto intro!: exI [of _ "[Accept Down_sock, Open_rb] @ a2 @ [Close_conn]"])
      next
        case Diverge
        with nd show ?thesis by simp
      qed
    qed
  qed
qed

lemma cleanup_actions: "cleanup rd dd file dir = (f', d', a) \<Longrightarrow> a = [Os_remove, Os_rmdir]"
  by (auto simp: cleanup_def split: prod.splits)

lemma prelude_prints:
  "x \<in> set (prelude a e) \<Longrightarrow>
   x = Mkdtemp \<or> (\<exists>out. x = Print out \<and> (\<forall>n. out \<noteq> Upload_complete n) \<and> (\<forall>m. out \<noteq> Msg m))"
  by (auto simp: prelude_def banner_def print_sender_commands_def print_receiver_commands_def
      Let_def)


subsection \<open>The runs of the program\<close>

lemma main_cases [case_names upload_hangs upload_interrupted upload_crashed
    download_hangs download_interrupted download_crashed download_complete]:
  obtains
    f a1 where
      "accept_upload (arg_port a) (up_bind_ok e) (up_ephemeral e) (uploaders e) None = (Diverge, f, a1)"
      "main a e = \<lparr>status = Hangs, actions = prelude a e @ a1, staged = f, wire = [],
                   left_file = f, left_dir = True\<rparr>"
  | f a1 f' d' where
      "accept_upload (arg_port a) (up_bind_ok e) (up_ephemeral e) (uploaders e) None
         = (Raise KeyboardInterrupt, f, a1)"
      "main a e = \<lparr>status = Exited 130,
                   actions = prelude a e @ a1
                     @ [Print (Msg Interrupted_upload), Os_remove, Os_rmdir, Sys_exit 130],
                   staged = f, wire = [], left_file = f', left_dir = d'\<rparr>"
  | x f a1 where
      "accept_upload (arg_port a) (up_bind_ok e) (up_ephemeral e) (uploaders e) None = (Raise x, f, a1)"
      "x \<noteq> KeyboardInterrupt"
      "main a e = \<lparr>status = Crashed x, actions = prelude a e @ a1, staged = f, wire = [],
                   left_file = f, left_dir = True\<rparr>"
  | n f a1 w a3 where
      "accept_upload (arg_port a) (up_bind_ok e) (up_ephemeral e) (uploaders e) None = (Return n, f, a1)"
      "serve_download (arg_port a) (down_bind_ok e) (down_ephemeral e) (downloader e) f = (Diverge, w, a3)"
      "main a e = \<lparr>status = Hangs,
                   actions = prelude a e @ a1
                     @ map Print [Upload_complete n, Blank, Box_title Title_ready,
                                  Dim_line Note_ready, Box_footer] @ a3,
                   staged = f, wire = w, left_file = f, left_dir = True\<rparr>"
  | n f a1 w a3 f' d' where
      "accept_upload (arg_port a) (up_bind_ok e) (up_ephemeral e) (uploaders e) None = (Return n, f, a1)"
      "serve_download (arg_port a) (down_bind_ok e) (down_ephemeral e) (downloader e) f
         = (Raise KeyboardInterrupt, w, a3)"
      "main a e = \<lparr>status = Exited 0,
                   actions = prelude a e @ a1
                     @ map Print [Upload_complete n, Blank, Box_title Title_ready,
                                  Dim_line Note_ready, Box_footer] @ a3
                     @ [Print (Msg Interrupted_download), Os_remove, Os_rmdir, Print (Msg Done)],
                   staged = f, wire = w, left_file = f', left_dir = d'\<rparr>"
  | n f a1 x w a3 where
      "accept_upload (arg_port a) (up_bind_ok e) (up_ephemeral e) (uploaders e) None = (Return n, f, a1)"
      "serve_download (arg_port a) (down_bind_ok e) (down_ephemeral e) (downloader e) f = (Raise x, w, a3)"
      "x \<noteq> KeyboardInterrupt"
      "main a e = \<lparr>status = Crashed x,
                   actions = prelude a e @ a1
                     @ map Print [Upload_complete n, Blank, Box_title Title_ready,
                                  Dim_line Note_ready, Box_footer] @ a3,
                   staged = f, wire = w, left_file = f, left_dir = True\<rparr>"
  | n f a1 w a3 f' d' where
      "accept_upload (arg_port a) (up_bind_ok e) (up_ephemeral e) (uploaders e) None = (Return n, f, a1)"
      "serve_download (arg_port a) (down_bind_ok e) (down_ephemeral e) (downloader e) f = (Return (), w, a3)"
      "main a e = \<lparr>status = Exited 0,
                   actions = prelude a e @ a1
                     @ map Print [Upload_complete n, Blank, Box_title Title_ready,
                                  Dim_line Note_ready, Box_footer] @ a3
                     @ [Print (Msg Download_complete), Os_remove, Os_rmdir, Print (Msg Done)],
                   staged = f, wire = w, left_file = f', left_dir = d'\<rparr>"
proof -
  obtain r1 f a1 where U:
    "accept_upload (arg_port a) (up_bind_ok e) (up_ephemeral e) (uploaders e) None = (r1, f, a1)"
    by (cases "accept_upload (arg_port a) (up_bind_ok e) (up_ephemeral e) (uploaders e) None")
  obtain f' d' a4 where "cleanup (remove_denied e) (rmdir_denied e) f True = (f', d', a4)"
    by (cases "cleanup (remove_denied e) (rmdir_denied e) f True")
  with cleanup_actions [OF this] have
    cl: "cleanup (remove_denied e) (rmdir_denied e) f True = (f', d', [Os_remove, Os_rmdir])"
    by simp
  show thesis
  proof (cases r1)
    case Diverge
    with U show thesis
      by (intro that(1) [of f a1]) (simp_all add: main_def Let_def prelude_def)
  next
    case (Raise x)
    show thesis
    proof (cases "x = KeyboardInterrupt")
      case True
      with U Raise cl show thesis
        by (intro that(2) [of f a1 f' d']) (simp_all add: main_def Let_def prelude_def)
    next
      case False
      with U Raise show thesis
        by (intro that(3) [of x f a1]) (simp_all add: main_def Let_def prelude_def)
    qed
  next
    case (Return n)
    obtain r2 w a3 where D:
      "serve_download (arg_port a) (down_bind_ok e) (down_ephemeral e) (downloader e) f = (r2, w, a3)"
      by (cases "serve_download (arg_port a) (down_bind_ok e) (down_ephemeral e) (downloader e) f")
    show thesis
    proof (cases r2)
      case Diverge
      with U Return D show thesis
        by (intro that(4) [of n f a1 w a3]) (simp_all add: main_def Let_def prelude_def)
    next
      case (Raise x)
      show thesis
      proof (cases "x = KeyboardInterrupt")
        case True
        with U Return D Raise cl show thesis
          by (intro that(5) [of n f a1 w a3 f' d']) (simp_all add: main_def Let_def prelude_def)
      next
        case False
        with U Return D Raise show thesis
          by (intro that(6) [of n f a1 x w a3]) (simp_all add: main_def Let_def prelude_def)
      qed
    next
      case (Return u)
      with U \<open>r1 = Return n\<close> D cl show thesis
        by (intro that(7) [of n f a1 w a3 f' d']) (simp_all add: main_def Let_def prelude_def)
    qed
  qed
qed

subsection \<open>What the phases can do\<close>

lemma upload_members:
  assumes "accept_upload port ok eph clients file = (r, f', a)" and "x \<in> set a"
  shows "transfer x \<or> x = Listen Up_sock (bound_port port eph) \<or> x = Bind_failed Up_sock port
         \<or> x = Close_listener Up_sock"
  using accept_upload_shape [OF assms(1)] assms(2) by (cases r) auto

lemma download_members:
  assumes "serve_download port ok eph client file = (r, w, a)" and "x \<in> set a"
  shows "transfer x \<or> x = Listen Down_sock (bound_port port eph) \<or> x = Bind_failed Down_sock port
         \<or> x = Close_listener Down_sock"
  using serve_download_shape [OF assms(1)] assms(2) by (cases r) auto

lemma not_printed_in_phases:
  assumes "accept_upload port ok eph clients file = (r, f', a1)"
    and "serve_download port' ok' eph' client file' = (r', w, a3)"
  shows "Print (Msg m) \<notin> set (prelude a e)" and "Print out \<notin> set a1" and "Print out \<notin> set a3"
  using prelude_prints [of "Print (Msg m)" a e] upload_members [OF assms(1), of "Print out"]
    download_members [OF assms(2), of "Print out"]
  by auto

lemma not_deleted_in_phases:
  assumes "accept_upload port ok eph clients file = (r, f', a1)"
    and "serve_download port' ok' eph' client file' = (r', w, a3)"
  shows "Os_remove \<notin> set (prelude a e)" and "Os_remove \<notin> set a1" and "Os_remove \<notin> set a3"
    and "Os_rmdir \<notin> set (prelude a e)" and "Os_rmdir \<notin> set a1" and "Os_rmdir \<notin> set a3"
  using prelude_prints [of Os_remove a e] upload_members [OF assms(1), of Os_remove]
    download_members [OF assms(2), of Os_remove]
    prelude_prints [of Os_rmdir a e] upload_members [OF assms(1), of Os_rmdir]
    download_members [OF assms(2), of Os_rmdir]
  by auto

lemma some_download: "\<exists>r w a3. serve_download port ok eph client file = (r, w, a3)"
  by (cases "serve_download port ok eph client file") auto

subsection \<open>From upload to download\<close>

lemma delivered_when_complete:
  assumes "Print (Msg Download_complete) \<in> set (actions (main a e))"
  shows "\<exists>pre evs post. uploaders e = pre @ Connect evs # post \<and> is_sender evs
           \<and> ending evs = Return ()
           \<and> staged (main a e) = Some (stream evs) \<and> wire (main a e) = stream evs"
proof (cases rule: main_cases [of a e])
  case (upload_hangs f a1)
  from some_download obtain r w a3 where
    "serve_download (arg_port a) (down_bind_ok e) (down_ephemeral e) (downloader e) f = (r, w, a3)"
    by blast
  from not_printed_in_phases [OF upload_hangs(1) this] assms upload_hangs(2) show ?thesis
    by simp
next
  case (upload_interrupted f a1 f' d')
  from some_download obtain r w a3 where
    "serve_download (arg_port a) (down_bind_ok e) (down_ephemeral e) (downloader e) f = (r, w, a3)"
    by blast
  from not_printed_in_phases [OF upload_interrupted(1) this] assms upload_interrupted(2)
  show ?thesis
    by simp
next
  case (upload_crashed x f a1)
  from some_download obtain r w a3 where
    "serve_download (arg_port a) (down_bind_ok e) (down_ephemeral e) (downloader e) f = (r, w, a3)"
    by blast
  from not_printed_in_phases [OF upload_crashed(1) this] assms upload_crashed(3) show ?thesis
    by simp
next
  case (download_hangs n f a1 w a3)
  from not_printed_in_phases [OF download_hangs(1,2)] assms download_hangs(3) show ?thesis
    by simp
next
  case (download_interrupted n f a1 w a3 f' d')
  from not_printed_in_phases [OF download_interrupted(1,2)] assms download_interrupted(3)
  show ?thesis
    by simp
next
  case (download_crashed n f a1 x w a3)
  from not_printed_in_phases [OF download_crashed(1,2)] assms download_crashed(4) show ?thesis
    by simp
next
  case (download_complete n f a1 w a3 f' d')
  from accept_upload_Return [OF download_complete(1)] obtain a' where
    "accept_loop (uploaders e) None 0 = (Return n, f, a')" ..
  from accept_loop_Return [OF this] obtain pre evs post where
    up: "uploaders e = pre @ Connect evs # post" "is_sender evs" "ending evs = Return ()"
    and f: "f = Some (stream evs)"
    by blast
  from serve_download_shape [OF download_complete(2)] f have "w = stream evs"
    by auto
  with up f download_complete(3) show ?thesis
    by auto
qed

lemma send_loop_prefix:
  "send_loop rest evs = (r, w, a) \<Longrightarrow> \<exists>t. rest = w @ t"
proof (induction rest evs arbitrary: r w a rule: send_loop.induct)
  case (1 rest evs)
  show ?case
  proof (cases "take CHUNK_SIZE rest = []")
    case True
    with 1(3) show ?thesis
      by (subst (asm) send_loop.simps) auto
  next
    case False
    have split: "rest = take CHUNK_SIZE rest @ drop CHUNK_SIZE rest"
      by simp
    show ?thesis
    proof (cases evs)
      case Nil
      obtain r2 w2 a2 where rec: "send_loop (drop CHUNK_SIZE rest) [] = (r2, w2, a2)"
        by (cases "send_loop (drop CHUNK_SIZE rest) []")
      from 1(1) [OF refl False Nil rec] obtain t where "drop CHUNK_SIZE rest = w2 @ t" ..
      moreover from 1(3) False Nil rec have "w = take CHUNK_SIZE rest @ w2"
        by (subst (asm) send_loop.simps) (simp add: Let_def)
      ultimately have "rest = w @ t"
        using split by (metis append.assoc)
      then show ?thesis ..
    next
      case (Cons ev evs')
      show ?thesis
      proof (cases ev)
        case Sent
        obtain r2 w2 a2 where rec: "send_loop (drop CHUNK_SIZE rest) evs' = (r2, w2, a2)"
          by (cases "send_loop (drop CHUNK_SIZE rest) evs'")
        from 1(2) [OF refl False Cons Sent rec] obtain t where "drop CHUNK_SIZE rest = w2 @ t" ..
        moreover from 1(3) False Cons Sent rec have "w = take CHUNK_SIZE rest @ w2"
          by (subst (asm) send_loop.simps) (simp add: Let_def)
        ultimately have "rest = w @ t"
          using split by (metis append.assoc)
        then show ?thesis ..
      next
        case (Send_error k)
        with 1(3) False Cons have "w = take k (take CHUNK_SIZE rest)"
          by (subst (asm) send_loop.simps) (simp add: Let_def)
        then have "rest = w @ drop k (take CHUNK_SIZE rest) @ drop CHUNK_SIZE rest"
          by (metis append.assoc append_take_drop_id)
        then show ?thesis ..
      next
        case (Send_interrupt k)
        with 1(3) False Cons have "w = take k (take CHUNK_SIZE rest)"
          by (subst (asm) send_loop.simps) (simp add: Let_def)
        then have "rest = w @ drop k (take CHUNK_SIZE rest) @ drop CHUNK_SIZE rest"
          by (metis append.assoc append_take_drop_id)
        then show ?thesis ..
      qed
    qed
  qed
qed

lemma serve_download_prefix:
  assumes "serve_download port ok eph client file = (r, w, a)"
  shows "case file of None \<Rightarrow> w = [] | Some f \<Rightarrow> \<exists>t. f = w @ t"
proof (cases "file")
  case None
  with assms show ?thesis
    by (auto simp: serve_download_def listen_once_def
        split: if_splits down_incoming.splits)
next
  case (Some f)
  show ?thesis
  proof (cases "\<exists>evs. client = Client evs \<and> 0 \<le> port \<and> port \<le> 65535 \<and> ok")
    case True
    then obtain evs where c: "client = Client evs" and ok: "0 \<le> port \<and> port \<le> 65535 \<and> ok"
      by blast
    obtain r2 w2 a2 where sl: "send_loop f evs = (r2, w2, a2)"
      by (cases "send_loop f evs")
    with assms Some c ok have "w = w2"
      by (cases r2) (auto simp: serve_download_def listen_once_def)
    with send_loop_prefix [OF sl] Some show ?thesis
      by simp
  next
    case False
    with assms have "w = []"
      by (cases client) (auto simp: serve_download_def listen_once_def split: if_splits)
    with Some show ?thesis
      by simp
  qed
qed

lemma wire_prefix_of_staged:
  "case staged (main a e) of None \<Rightarrow> wire (main a e) = []
   | Some f \<Rightarrow> \<exists>t. f = wire (main a e) @ t"
proof (cases rule: main_cases [of a e])
  case (upload_hangs f a1)
  then show ?thesis by (simp split: option.splits)
next
  case (upload_interrupted f a1 f' d')
  then show ?thesis by (simp split: option.splits)
next
  case (upload_crashed x f a1)
  then show ?thesis by (simp split: option.splits)
next
  case (download_hangs n f a1 w a3)
  with serve_download_prefix [OF download_hangs(2)] show ?thesis
    by (simp split: option.splits)
next
  case (download_interrupted n f a1 w a3 f' d')
  with serve_download_prefix [OF download_interrupted(2)] show ?thesis
    by (simp split: option.splits)
next
  case (download_crashed n f a1 x w a3)
  with serve_download_prefix [OF download_crashed(2)] show ?thesis
    by (simp split: option.splits)
next
  case (download_complete n f a1 w a3 f' d')
  with serve_download_prefix [OF download_complete(2)] show ?thesis
    by (simp split: option.splits)
qed

lemma staged_when_uploaded:
  assumes "Print (Upload_complete n) \<in> set (actions (main a e))"
  shows "\<exists>pre evs post. uploaders e = pre @ Connect evs # post \<and> is_sender evs
           \<and> ending evs = Return () \<and> staged (main a e) = Some (stream evs)"
proof -
  have pre: "Print (Upload_complete n) \<notin> set (prelude a e)"
    using prelude_prints [of "Print (Upload_complete n)" a e] by auto
  have st: "\<exists>pre evs post. uploaders e = pre @ Connect evs # post \<and> is_sender evs
           \<and> ending evs = Return () \<and> f = Some (stream evs)"
    if "accept_upload (arg_port a) (up_bind_ok e) (up_ephemeral e) (uploaders e) None = (Return m, f, a1)"
    for m f a1
  proof -
    from accept_upload_Return [OF that] obtain a' where
      "accept_loop (uploaders e) None 0 = (Return m, f, a')" ..
    then show ?thesis
      by (rule accept_loop_Return)
  qed
  show ?thesis
  proof (cases rule: main_cases [of a e])
    case (upload_hangs f a1)
    from some_download obtain r w a3 where
      "serve_download (arg_port a) (down_bind_ok e) (down_ephemeral e) (downloader e) f = (r, w, a3)"
      by blast
    from not_printed_in_phases(2) [OF upload_hangs(1) this] assms pre upload_hangs(2)
    show ?thesis
      by simp
  next
    case (upload_interrupted f a1 f' d')
    from some_download obtain r w a3 where
      "serve_download (arg_port a) (down_bind_ok e) (down_ephemeral e) (downloader e) f = (r, w, a3)"
      by blast
    from not_printed_in_phases(2) [OF upload_interrupted(1) this] assms pre
      upload_interrupted(2)
    show ?thesis
      by simp
  next
    case (upload_crashed x f a1)
    from some_download obtain r w a3 where
      "serve_download (arg_port a) (down_bind_ok e) (down_ephemeral e) (downloader e) f = (r, w, a3)"
      by blast
    from not_printed_in_phases(2) [OF upload_crashed(1) this] assms pre upload_crashed(3)
    show ?thesis
      by simp
  next
    case (download_hangs m f a1 w a3)
    with st [OF download_hangs(1)] show ?thesis by simp
  next
    case (download_interrupted m f a1 w a3 f' d')
    with st [OF download_interrupted(1)] show ?thesis by simp
  next
    case (download_crashed m f a1 x w a3)
    with st [OF download_crashed(1)] show ?thesis by simp
  next
    case (download_complete m f a1 w a3 f' d')
    with st [OF download_complete(1)] show ?thesis by simp
  qed
qed

lemma attempt_passed_over:
  assumes "passed_over evs"
  shows "\<exists>f' sz' a. upload_attempt (new_conn evs) file sz = (Continue, f', sz', a)"
proof (cases "is_sender evs")
  case True
  with assms have "step_of (ending evs) = Continue"
    by (simp add: passed_over_def)
  with attempt_sender [OF True, of "file" sz] show ?thesis
    by auto
next
  case False
  obtain r c where rc: "recv CHUNK_SIZE (settimeout (Some PROBE_WAIT) (new_conn evs)) = (r, c)"
    by (cases "recv CHUNK_SIZE (settimeout (Some PROBE_WAIT) (new_conn evs))")
  from first_recv_conn [OF rc] have fr: "first_recv evs = r"
    by simp
  with False assms first_recv_not_Diverge [of evs]
  have "r = Return [] \<or> (\<exists>x. r = Raise x \<and> is_Exception x)"
  proof (cases r)
    case (Raise x)
    with fr False assms show ?thesis
      by (cases x) (auto simp: passed_over_def)
  qed (auto simp: is_sender_def)
  then show ?thesis
  proof
    assume "r = Return []"
    with rc show ?thesis
      by (simp add: upload_attempt_def Let_def settimeout_def new_conn_def)
  next
    assume "\<exists>x. r = Raise x \<and> is_Exception x"
    then obtain x where "r = Raise x" "is_Exception x"
      by blast
    with rc show ?thesis
      by (cases x) (simp_all add: upload_attempt_def Let_def settimeout_def new_conn_def)
  qed
qed

lemma accept_loop_passed_over:
  assumes "\<forall>q\<in>set before. passed_over q"
  shows "\<exists>f' sz' a. \<forall>rest. accept_loop (map Connect before @ rest) file sz =
           (case accept_loop rest f' sz' of (r, f, a') \<Rightarrow> (r, f, a @ a'))"
  using assms
proof (induction before arbitrary: "file" sz)
  case Nil
  have "\<forall>rest. accept_loop (map Connect [] @ rest) file sz =
           (case accept_loop rest file sz of (r, f, a') \<Rightarrow> (r, f, [] @ a'))"
    by (simp split: prod.splits)
  then show ?case
    by blast
next
  case (Cons q before)
  then have q: "passed_over q" and rest: "\<forall>q\<in>set before. passed_over q"
    by simp_all
  from attempt_passed_over [OF q, of "file" sz] obtain f1 s1 a1 where
    att: "upload_attempt (new_conn q) file sz = (Continue, f1, s1, a1)"
    by blast
  from Cons.IH [OF rest, of f1 s1] obtain f' sz' a where
    IH: "\<And>rest. accept_loop (map Connect before @ rest) f1 s1 =
           (case accept_loop rest f' sz' of (r, f, a') \<Rightarrow> (r, f, a @ a'))"
    by blast
  have "\<forall>rest. accept_loop (map Connect (q # before) @ rest) file sz =
           (case accept_loop rest f' sz' of
              (r, f, a') \<Rightarrow> (r, f, (Accept Up_sock # a1 @ a) @ a'))"
    by (simp add: att IH split: prod.splits)
  then show ?case
    by blast
qed

lemma accept_upload_completes:
  assumes "0 \<le> port \<and> port \<le> 65535 \<and> ok" and "\<forall>q\<in>set before. passed_over q"
    and "is_sender evs" and "ending evs = Return ()"
  shows "\<exists>n a. accept_upload port ok eph (map Connect before @ Connect evs # rest) file
           = (Return n, Some (stream evs), a)"
proof -
  from accept_loop_passed_over [OF assms(2), of "file" 0] obtain f' sz' a where
    1: "accept_loop (map Connect before @ Connect evs # rest) file 0 =
           (case accept_loop (Connect evs # rest) f' sz' of (r, f, a') \<Rightarrow> (r, f, a @ a'))"
    by blast
  from accept_loop_sender [OF assms(3), of f' sz'] assms(4) obtain a' where
    "accept_loop (Connect evs # rest) f' sz' =
       (Return (sz' + length (stream evs)), Some (stream evs), a')"
    by (auto simp del: accept_loop.simps)
  with 1 have "accept_loop (map Connect before @ Connect evs # rest) file 0 =
      (Return (sz' + length (stream evs)), Some (stream evs), a @ a')"
    by simp
  with assms(1) show ?thesis
    by (simp add: accept_upload_def listen_once_def)
qed

lemma send_loop_all_sent:
  "\<forall>s\<in>set evs. s = Sent \<Longrightarrow> \<exists>a. send_loop rest evs = (Return (), rest, a)"
proof (induction rest evs rule: send_loop.induct)
  case (1 rest evs)
  show ?case
  proof (cases "take CHUNK_SIZE rest = []")
    case True
    with CHUNK_SIZE_pos have "rest = []"
      by simp
    then show ?thesis
      by (subst send_loop.simps) simp
  next
    case False
    show ?thesis
    proof (cases evs)
      case Nil
      from 1(1) [OF refl False Nil] obtain a where
        "send_loop (drop CHUNK_SIZE rest) [] = (Return (), drop CHUNK_SIZE rest, a)"
        by auto
      with False Nil show ?thesis
        by (subst send_loop.simps) (simp add: Let_def)
    next
      case (Cons ev evs')
      with 1(3) have ev: "ev = Sent" and evs': "\<forall>s\<in>set evs'. s = Sent"
        by simp_all
      from 1(2) [OF refl False Cons ev evs'] obtain a where
        "send_loop (drop CHUNK_SIZE rest) evs' = (Return (), drop CHUNK_SIZE rest, a)"
        by auto
      with False Cons ev show ?thesis
        by (subst send_loop.simps) (simp add: Let_def)
    qed
  qed
qed

lemma serve_download_all_sent:
  assumes "0 \<le> port \<and> port \<le> 65535 \<and> ok" and "\<forall>s\<in>set sends. s = Sent"
  shows "\<exists>a. serve_download port ok eph (Client sends) (Some f) = (Return (), f, a)"
proof -
  from send_loop_all_sent [OF assms(2), of f] obtain a where
    "send_loop f sends = (Return (), f, a)" ..
  with assms(1) show ?thesis
    by (simp add: serve_download_def listen_once_def)
qed

lemma delivered_to_taking_client:
  assumes "0 \<le> arg_port a \<and> arg_port a \<le> 65535" and "up_bind_ok e" and "down_bind_ok e"
    and "uploaders e = map Connect before @ Connect sender # after"
    and "\<forall>q\<in>set before. passed_over q" and "is_sender sender" and "ending sender = Return ()"
    and "downloader e = Client sends" and "\<forall>s\<in>set sends. s = Sent"
  shows "status (main a e) = Exited 0 \<and> staged (main a e) = Some (stream sender)
       \<and> wire (main a e) = stream sender
       \<and> Print (Msg Download_complete) \<in> set (actions (main a e))"
proof -
  from assms(1,2) have "0 \<le> arg_port a \<and> arg_port a \<le> 65535 \<and> up_bind_ok e"
    by simp
  from accept_upload_completes [OF this assms(5,6,7), of "up_ephemeral e" after None] assms(4)
  obtain n a1 where U: "accept_upload (arg_port a) (up_bind_ok e) (up_ephemeral e)
      (uploaders e) None = (Return n, Some (stream sender), a1)"
    by auto
  from assms(1,3) have "0 \<le> arg_port a \<and> arg_port a \<le> 65535 \<and> down_bind_ok e"
    by simp
  from serve_download_all_sent [OF this assms(9), of "down_ephemeral e" "stream sender"] assms(8)
  obtain a3 where D: "serve_download (arg_port a) (down_bind_ok e) (down_ephemeral e)
      (downloader e) (Some (stream sender)) = (Return (), stream sender, a3)"
    by auto
  show ?thesis
  proof (cases rule: main_cases [of a e])
    case (download_complete n' f a1' w a3' f' d')
    with U D show ?thesis
      by simp
  qed (use U D in auto)
qed

text \<open>
  C1. When the ports can be bound, the connections before the sender are passed over, the
  sender's stream runs to its end and the download client takes every chunk it is sent,
  the run exits with the download reported complete, the bytes staged in the temporary
  file are exactly the bytes of the sender's stream, and the bytes sent to the one
  download connection are exactly those bytes, in order and unmodified (last part).
  Whenever the upload is reported complete, one of the upload connections was accepted as
  the sender and its stream ran to its end, and the staged bytes are exactly the bytes of
  that stream. Whenever the download is reported complete, the bytes sent to the download
  connection are exactly the staged bytes. In every run, also one in which the download
  connection breaks or never comes, what has been sent is an initial part of the staged
  bytes.
\<close>

theorem relay_delivers_upload:
  "((\<exists>n. Print (Upload_complete n) \<in> set (actions (main a e))) \<longrightarrow>
      (\<exists>pre evs post. uploaders e = pre @ Connect evs # post \<and> is_sender evs
         \<and> ending evs = Return () \<and> staged (main a e) = Some (stream evs)))
   \<and> (Print (Msg Download_complete) \<in> set (actions (main a e)) \<longrightarrow>
      (\<exists>pre evs post. uploaders e = pre @ Connect evs # post \<and> is_sender evs
         \<and> ending evs = Return ()
         \<and> staged (main a e) = Some (stream evs) \<and> wire (main a e) = stream evs))
   \<and> (case staged (main a e) of None \<Rightarrow> wire (main a e) = []
      | Some f \<Rightarrow> \<exists>t. f = wire (main a e) @ t)
   \<and> (0 \<le> arg_port a \<and> arg_port a \<le> 65535 \<and> up_bind_ok e \<and> down_bind_ok e
      \<and> uploaders e = map Connect before @ Connect sender # after
      \<and> (\<forall>q\<in>set before. passed_over q) \<and> is_sender sender \<and> ending sender = Return ()
      \<and> downloader e = Client sends \<and> (\<forall>s\<in>set sends. s = Sent)
      \<longrightarrow> status (main a e) = Exited 0 \<and> staged (main a e) = Some (stream sender)
          \<and> wire (main a e) = stream sender
          \<and> Print (Msg Download_complete) \<in> set (actions (main a e)))"
  using staged_when_uploaded [of _ a e] delivered_when_complete [of a e]
    wire_prefix_of_staged [of a e] delivered_to_taking_client [of a e before sender after sends]
  by blast

lemmas run_simps =
  main_def Let_def banner_def print_sender_commands_def print_receiver_commands_def
  accept_upload_def listen_once_def bound_port_def upload_attempt_def recv_def settimeout_def
  new_conn_def
  copy_loop.simps serve_download_def send_loop.simps cleanup_def os_remove_def os_rmdir_def
  PROBE_WAIT_def CHUNK_SIZE_def

lemma example_run:
  "status (main example_args example_env) = Exited 0"
  "Print (Msg Download_complete) \<in> set (actions (main example_args example_env))"
  "staged (main example_args example_env) = Some [3, 4, 5]"
  "wire (main example_args example_env) = [3, 4, 5]"
  "left_file (main example_args example_env) = None"
  "left_dir (main example_args example_env) = False"
  by (simp_all add: example_args_def example_env_def run_simps)

theorem relay_delivers_upload_witness:
  "passed_over [] \<and> passed_over [Data 0 [1, 2], Reset 1]
   \<and> is_sender [Data 1 [3], Data 50 [4, 5], Data 0 []]
   \<and> ending [Data 1 [3], Data 50 [4, 5], Data 0 []] = Return ()
   \<and> stream [Data 1 [3], Data 50 [4, 5], Data 0 []] = [3, 4, 5]
   \<and> status (main example_args example_env) = Exited 0
   \<and> staged (main example_args example_env) = Some [3, 4, 5]
   \<and> wire (main example_args example_env) = [3, 4, 5]
   \<and> Print (Msg Download_complete) \<in> set (actions (main example_args example_env))"
proof -
  let ?sender = "[Data 1 [3], Data 50 [4, 5], Data 0 []]"
  have s0: "\<not> is_sender []" and s1: "is_sender [Data 0 [1, 2], Reset 1]"
    and s: "is_sender ?sender"
    by (simp_all add: is_sender_def first_recv_cases PROBE_WAIT_def CHUNK_SIZE_def)
  have p0: "passed_over []"
    using s0 by (simp add: passed_over_def first_recv_cases)
  have p1: "passed_over [Data 0 [1, 2], Reset 1]"
    using s1 by (simp add: passed_over_def)
  have e: "ending ?sender = Return ()" and st: "stream ?sender = [3, 4, 5]"
    by simp_all
  have env: "0 \<le> arg_port example_args \<and> arg_port example_args \<le> 65535
      \<and> up_bind_ok example_env \<and> down_bind_ok example_env
      \<and> uploaders example_env
          = map Connect [[], [Data 0 [1, 2], Reset 1]] @ Connect ?sender # []
      \<and> downloader example_env = Client []"
    by (simp add: example_args_def example_env_def)
  have "\<forall>q\<in>set [[], [Data 0 [1, 2], Reset 1]]. passed_over q"
    using p0 p1 by simp
  moreover have "\<forall>s\<in>set ([] :: send_event list). s = Sent"
    by simp
  ultimately have "status (main example_args example_env) = Exited 0
      \<and> staged (main example_args example_env) = Some (stream ?sender)
      \<and> wire (main example_args example_env) = stream ?sender
      \<and> Print (Msg Download_complete) \<in> set (actions (main example_args example_env))"
    using relay_delivers_upload [of example_args example_env
        "[[], [Data 0 [1, 2], Reset 1]]" ?sender "[]" "[]"] env s e
    by blast
  with p0 p1 s e st show ?thesis
    by simp
qed

subsection \<open>The password\<close>

lemma filter_prints [simp]: "filter (\<lambda>x. \<not> is_print x) (map Print xs) = []"
  by (induction xs) auto

lemma unprinted_main:
  assumes "arg_port a' = arg_port a" and "up_bind_ok e' = up_bind_ok e"
    and "up_ephemeral e' = up_ephemeral e" and "down_ephemeral e' = down_ephemeral e"
    and "uploaders e' = uploaders e" and "down_bind_ok e' = down_bind_ok e"
    and "downloader e' = downloader e" and "remove_denied e' = remove_denied e"
    and "rmdir_denied e' = rmdir_denied e"
  shows "unprinted (main a' e') = unprinted (main a e)"
proof -
  obtain r1 f a1 where U:
    "accept_upload (arg_port a) (up_bind_ok e) (up_ephemeral e) (uploaders e) None = (r1, f, a1)"
    by (cases "accept_upload (arg_port a) (up_bind_ok e) (up_ephemeral e) (uploaders e) None")
  obtain r2 w a3 where D:
    "serve_download (arg_port a) (down_bind_ok e) (down_ephemeral e) (downloader e) f = (r2, w, a3)"
    by (cases "serve_download (arg_port a) (down_bind_ok e) (down_ephemeral e) (downloader e) f")
  obtain f' d' a4 where cl: "cleanup (remove_denied e) (rmdir_denied e) f True = (f', d', a4)"
    by (cases "cleanup (remove_denied e) (rmdir_denied e) f True")
  show ?thesis
    by (cases r1; cases r2) (simp_all add: main_def Let_def unprinted_def assms U D cl)
qed

lemma prelude_in_main: "set (prelude a e) \<subseteq> set (actions (main a e))"
  by (cases rule: main_cases [of a e]) auto

lemma password_in_prelude:
  "Print (Info_kv ''Password (encrypted mode)'' (the_password a (random e))) \<in> set (prelude a e)"
  by (simp add: prelude_def banner_def)

text \<open>
  C7. The password is advisory only. Two runs that differ in nothing but the password,
  given on the command line or drawn at random, agree in everything but what they print:
  the same exit, the same actions on sockets and on the staged file, the same bytes
  staged, the same bytes sent to the download client, the same files left. The password
  does reach the printed text: it is shown in the banner.
\<close>

theorem password_not_enforced:
  "unprinted (main (a\<lparr>arg_password := p\<rparr>) (e\<lparr>random := r\<rparr>))
   = unprinted (main (a\<lparr>arg_password := q\<rparr>) (e\<lparr>random := r'\<rparr>))
   \<and> Print (Info_kv ''Password (encrypted mode)'' (the_password (a\<lparr>arg_password := p\<rparr>) r))
       \<in> set (actions (main (a\<lparr>arg_password := p\<rparr>) (e\<lparr>random := r\<rparr>)))"
proof -
  have "unprinted (main (a\<lparr>arg_password := p\<rparr>) (e\<lparr>random := r\<rparr>)) = unprinted (main a e)"
    by (rule unprinted_main) simp_all
  moreover
  have "unprinted (main (a\<lparr>arg_password := q\<rparr>) (e\<lparr>random := r'\<rparr>)) = unprinted (main a e)"
    by (rule unprinted_main) simp_all
  moreover
  from password_in_prelude [of "a\<lparr>arg_password := p\<rparr>" "e\<lparr>random := r\<rparr>"]
    prelude_in_main [of "a\<lparr>arg_password := p\<rparr>" "e\<lparr>random := r\<rparr>"]
  have "Print (Info_kv ''Password (encrypted mode)'' (the_password (a\<lparr>arg_password := p\<rparr>) r))
       \<in> set (actions (main (a\<lparr>arg_password := p\<rparr>) (e\<lparr>random := r\<rparr>)))"
    by auto
  ultimately show ?thesis
    by simp
qed

subsection \<open>Deleting the staged data on the way out\<close>

lemma flags_irrelevant:
  "status (main a (e\<lparr>remove_denied := rd, rmdir_denied := dd\<rparr>)) = status (main a e)
   \<and> actions (main a (e\<lparr>remove_denied := rd, rmdir_denied := dd\<rparr>)) = actions (main a e)"
proof -
  obtain r1 f a1 where U:
    "accept_upload (arg_port a) (up_bind_ok e) (up_ephemeral e) (uploaders e) None = (r1, f, a1)"
    by (cases "accept_upload (arg_port a) (up_bind_ok e) (up_ephemeral e) (uploaders e) None")
  obtain r2 w a3 where D:
    "serve_download (arg_port a) (down_bind_ok e) (down_ephemeral e) (downloader e) f = (r2, w, a3)"
    by (cases "serve_download (arg_port a) (down_bind_ok e) (down_ephemeral e) (downloader e) f")
  obtain f1 d1 a4 where "cleanup (remove_denied e) (rmdir_denied e) f True = (f1, d1, a4)"
    by (cases "cleanup (remove_denied e) (rmdir_denied e) f True")
  with cleanup_actions [OF this]
  have c1: "cleanup (remove_denied e) (rmdir_denied e) f True = (f1, d1, [Os_remove, Os_rmdir])"
    by simp
  obtain f2 d2 a5 where "cleanup rd dd f True = (f2, d2, a5)"
    by (cases "cleanup rd dd f True")
  with cleanup_actions [OF this]
  have c2: "cleanup rd dd f True = (f2, d2, [Os_remove, Os_rmdir])"
    by simp
  show ?thesis
    by (cases r1; cases r2) (simp_all add: main_def Let_def U D c1 c2)
qed


lemma crash_is_OSError:
  assumes "serve_download port ok eph client file = (Raise x, w, a3)" and "x \<noteq> KeyboardInterrupt"
  shows "x = OSError"
  using serve_download_shape [OF assms(1)] assms(2) by (cases x) auto

lemma upload_crash_is_OSError:
  assumes "accept_upload port ok eph clients file = (Raise x, f, a1)" and "x \<noteq> KeyboardInterrupt"
  shows "x = OSError"
  using accept_upload_shape [OF assms(1)] assms(2) by auto

text \<open>
  C5, amended. When the process exits, which it does with status 130 after a
  KeyboardInterrupt in the upload phase and with status 0 after the download phase has
  completed or has been interrupted by a KeyboardInterrupt, its last actions are: the
  message of that path, the attempt to delete the staged file, the attempt to delete the
  directory, and the exit or the closing message; nothing was deleted before. Whether the
  deletions are refused changes neither the exit status nor the actions: their failures
  are passed over. When a phase ends with another exception (the port cannot be bound, a
  send to the download client fails) nobody catches it: the process dies of it without
  attempting either deletion, and the staged data stays on disk.
\<close>

theorem cleanup_on_exit_paths:
  "(\<forall>c. status (main a e) = Exited c \<longrightarrow>
      (\<exists>pre m final. actions (main a e) = pre @ [Print (Msg m), Os_remove, Os_rmdir, final]
         \<and> Os_remove \<notin> set pre \<and> Os_rmdir \<notin> set pre
         \<and> (c = 130 \<and> m = Interrupted_upload \<and> final = Sys_exit 130
            \<or> c = 0 \<and> (m = Download_complete \<or> m = Interrupted_download)
               \<and> final = Print (Msg Done))))
   \<and> (\<forall>x. status (main a e) = Crashed x \<longrightarrow>
         x = OSError \<and> Os_remove \<notin> set (actions (main a e))
         \<and> Os_rmdir \<notin> set (actions (main a e))
         \<and> left_file (main a e) = staged (main a e) \<and> left_dir (main a e))
   \<and> (fst (accept_upload (arg_port a) (up_bind_ok e) (up_ephemeral e) (uploaders e) None)
         = Raise KeyboardInterrupt \<longrightarrow> status (main a e) = Exited 130)
   \<and> (\<forall>n f a1. accept_upload (arg_port a) (up_bind_ok e) (up_ephemeral e) (uploaders e) None = (Return n, f, a1)
         \<and> (fst (serve_download (arg_port a) (down_bind_ok e) (down_ephemeral e) (downloader e) f) = Return ()
            \<or> fst (serve_download (arg_port a) (down_bind_ok e) (down_ephemeral e) (downloader e) f)
               = Raise KeyboardInterrupt)
         \<longrightarrow> status (main a e) = Exited 0)
   \<and> status (main a (e\<lparr>remove_denied := rd, rmdir_denied := dd\<rparr>)) = status (main a e)
   \<and> actions (main a (e\<lparr>remove_denied := rd, rmdir_denied := dd\<rparr>)) = actions (main a e)"
proof -
  have "(\<forall>c. status (main a e) = Exited c \<longrightarrow>
      (\<exists>pre m final. actions (main a e) = pre @ [Print (Msg m), Os_remove, Os_rmdir, final]
         \<and> Os_remove \<notin> set pre \<and> Os_rmdir \<notin> set pre
         \<and> (c = 130 \<and> m = Interrupted_upload \<and> final = Sys_exit 130
            \<or> c = 0 \<and> (m = Download_complete \<or> m = Interrupted_download)
               \<and> final = Print (Msg Done))))
   \<and> (\<forall>x. status (main a e) = Crashed x \<longrightarrow>
         x = OSError \<and> Os_remove \<notin> set (actions (main a e))
         \<and> Os_rmdir \<notin> set (actions (main a e))
         \<and> left_file (main a e) = staged (main a e) \<and> left_dir (main a e))
   \<and> (fst (accept_upload (arg_port a) (up_bind_ok e) (up_ephemeral e) (uploaders e) None)
         = Raise KeyboardInterrupt \<longrightarrow> status (main a e) = Exited 130)
   \<and> (\<forall>n f a1. accept_upload (arg_port a) (up_bind_ok e) (up_ephemeral e) (uploaders e) None = (Return n, f, a1)
         \<and> (fst (serve_download (arg_port a) (down_bind_ok e) (down_ephemeral e) (downloader e) f) = Return ()
            \<or> fst (serve_download (arg_port a) (down_bind_ok e) (down_ephemeral e) (downloader e) f)
               = Raise KeyboardInterrupt)
         \<longrightarrow> status (main a e) = Exited 0)"
  proof (cases rule: main_cases [of a e])
    case (upload_hangs f a1)
    then show ?thesis
      by simp
  next
    case (upload_interrupted f a1 f' d')
    from some_download obtain r w a3 where
      "serve_download (arg_port a) (down_bind_ok e) (down_ephemeral e) (downloader e) f = (r, w, a3)"
      by blast
    from not_deleted_in_phases [OF upload_interrupted(1) this]
    have "Os_remove \<notin> set (prelude a e @ a1)" "Os_rmdir \<notin> set (prelude a e @ a1)"
      by simp_all
    moreover have "actions (main a e) =
        (prelude a e @ a1) @ [Print (Msg Interrupted_upload), Os_remove, Os_rmdir, Sys_exit 130]"
      by (simp add: upload_interrupted(2))
    ultimately have "\<exists>pre m final.
        actions (main a e) = pre @ [Print (Msg m), Os_remove, Os_rmdir, final]
         \<and> Os_remove \<notin> set pre \<and> Os_rmdir \<notin> set pre
         \<and> m = Interrupted_upload \<and> final = Sys_exit 130"
      by blast
    with upload_interrupted show ?thesis
      by auto
  next
    case (upload_crashed x f a1)
    from some_download obtain r w a3 where
      "serve_download (arg_port a) (down_bind_ok e) (down_ephemeral e) (downloader e) f = (r, w, a3)"
      by blast
    from not_deleted_in_phases [OF upload_crashed(1) this]
      upload_crash_is_OSError [OF upload_crashed(1,2)] upload_crashed
    show ?thesis
      by simp
  next
    case (download_hangs n f a1 w a3)
    then show ?thesis
      by simp
  next
    case (download_interrupted n f a1 w a3 f' d')
    let ?pre = "prelude a e @ a1
        @ map Print [Upload_complete n, Blank, Box_title Title_ready,
                     Dim_line Note_ready, Box_footer] @ a3"
    from not_deleted_in_phases [OF download_interrupted(1,2)]
    have "Os_remove \<notin> set ?pre" "Os_rmdir \<notin> set ?pre"
      by simp_all
    moreover have "actions (main a e) =
        ?pre @ [Print (Msg Interrupted_download), Os_remove, Os_rmdir, Print (Msg Done)]"
      by (simp add: download_interrupted(3))
    ultimately have "\<exists>pre m final.
        actions (main a e) = pre @ [Print (Msg m), Os_remove, Os_rmdir, final]
         \<and> Os_remove \<notin> set pre \<and> Os_rmdir \<notin> set pre
         \<and> m = Interrupted_download \<and> final = Print (Msg Done)"
      by blast
    with download_interrupted show ?thesis
      by auto
  next
    case (download_crashed n f a1 x w a3)
    from not_deleted_in_phases [OF download_crashed(1,2)]
      crash_is_OSError [OF download_crashed(2,3)] download_crashed
    show ?thesis
      by simp
  next
    case (download_complete n f a1 w a3 f' d')
    let ?pre = "prelude a e @ a1
        @ map Print [Upload_complete n, Blank, Box_title Title_ready,
                     Dim_line Note_ready, Box_footer] @ a3"
    from not_deleted_in_phases [OF download_complete(1,2)]
    have "Os_remove \<notin> set ?pre" "Os_rmdir \<notin> set ?pre"
      by simp_all
    moreover have "actions (main a e) =
        ?pre @ [Print (Msg Download_complete), Os_remove, Os_rmdir, Print (Msg Done)]"
      by (simp add: download_complete(3))
    ultimately have "\<exists>pre m final.
        actions (main a e) = pre @ [Print (Msg m), Os_remove, Os_rmdir, final]
         \<and> Os_remove \<notin> set pre \<and> Os_rmdir \<notin> set pre
         \<and> m = Download_complete \<and> final = Print (Msg Done)"
      by blast
    with download_complete show ?thesis
      by auto
  qed
  with flags_irrelevant show ?thesis
    by blast
qed

lemma broken_run:
  "status (main example_args broken_download_env) = Crashed OSError"
  "Os_remove \<notin> set (actions (main example_args broken_download_env))"
  "Os_rmdir \<notin> set (actions (main example_args broken_download_env))"
  "staged (main example_args broken_download_env) = Some [1]"
  "left_file (main example_args broken_download_env) = Some [1]"
  "left_dir (main example_args broken_download_env) = True"
  by (simp_all add: example_args_def broken_download_env_def run_simps)

lemma interrupted_run:
  "status (main example_args interrupted_env) = Exited 130"
  "left_file (main example_args interrupted_env) = None"
  "left_dir (main example_args interrupted_env) = False"
  by (simp_all add: example_args_def interrupted_env_def run_simps)

text \<open>
  C5, as stated, fails: not every run that ends attempts the deletions. Here the upload
  completes and the download client breaks the connection at the first chunk; the process
  dies of the error, deletes nothing, and leaves the staged file and the directory.
\<close>

theorem cleanup_every_path_counterexample:
  "status (main example_args broken_download_env) = Crashed OSError
   \<and> Os_remove \<notin> set (actions (main example_args broken_download_env))
   \<and> Os_rmdir \<notin> set (actions (main example_args broken_download_env))
   \<and> left_file (main example_args broken_download_env) = Some [1]
   \<and> left_dir (main example_args broken_download_env) = True"
  using broken_run by simp

theorem cleanup_on_exit_paths_witness:
  "status (main example_args interrupted_env) = Exited 130
   \<and> (\<exists>pre. actions (main example_args interrupted_env)
              = pre @ [Print (Msg Interrupted_upload), Os_remove, Os_rmdir, Sys_exit 130])
   \<and> status (main example_args example_env) = Exited 0
   \<and> (\<exists>pre m. actions (main example_args example_env)
              = pre @ [Print (Msg m), Os_remove, Os_rmdir, Print (Msg Done)])
   \<and> status (main example_args broken_download_env) = Crashed OSError
   \<and> Os_remove \<notin> set (actions (main example_args broken_download_env))"
proof -
  from cleanup_on_exit_paths [of example_args interrupted_env False False]
  have "\<forall>c. status (main example_args interrupted_env) = Exited c \<longrightarrow>
      (\<exists>pre m final. actions (main example_args interrupted_env)
           = pre @ [Print (Msg m), Os_remove, Os_rmdir, final]
         \<and> Os_remove \<notin> set pre \<and> Os_rmdir \<notin> set pre
         \<and> (c = 130 \<and> m = Interrupted_upload \<and> final = Sys_exit 130
            \<or> c = 0 \<and> (m = Download_complete \<or> m = Interrupted_download)
               \<and> final = Print (Msg Done)))"
    by (rule conjunct1)
  with interrupted_run(1) obtain pre m final where
    "actions (main example_args interrupted_env)
       = pre @ [Print (Msg m), Os_remove, Os_rmdir, final]"
    "(130::int) = 130 \<and> m = Interrupted_upload \<and> final = Sys_exit 130
     \<or> (130::int) = 0 \<and> (m = Download_complete \<or> m = Interrupted_download)
        \<and> final = Print (Msg Done)"
    by blast
  then have 1: "\<exists>pre. actions (main example_args interrupted_env)
              = pre @ [Print (Msg Interrupted_upload), Os_remove, Os_rmdir, Sys_exit 130]"
    by auto
  from cleanup_on_exit_paths [of example_args example_env False False]
  have "\<forall>c. status (main example_args example_env) = Exited c \<longrightarrow>
      (\<exists>pre m final. actions (main example_args example_env)
           = pre @ [Print (Msg m), Os_remove, Os_rmdir, final]
         \<and> Os_remove \<notin> set pre \<and> Os_rmdir \<notin> set pre
         \<and> (c = 130 \<and> m = Interrupted_upload \<and> final = Sys_exit 130
            \<or> c = 0 \<and> (m = Download_complete \<or> m = Interrupted_download)
               \<and> final = Print (Msg Done)))"
    by (rule conjunct1)
  with example_run(1) obtain pre m final where
    "actions (main example_args example_env)
       = pre @ [Print (Msg m), Os_remove, Os_rmdir, final]"
    "(0::int) = 130 \<and> m = Interrupted_upload \<and> final = Sys_exit 130
     \<or> (0::int) = 0 \<and> (m = Download_complete \<or> m = Interrupted_download)
        \<and> final = Print (Msg Done)"
    by blast
  then have 2: "\<exists>pre m. actions (main example_args example_env)
              = pre @ [Print (Msg m), Os_remove, Os_rmdir, Print (Msg Done)]"
    by auto
  from cleanup_on_exit_paths [of example_args broken_download_env False False] broken_run(1)
  have 3: "Os_remove \<notin> set (actions (main example_args broken_download_env))"
    by blast
  from 1 2 3 interrupted_run(1) example_run(1) broken_run(1) show ?thesis
    by blast
qed

subsection \<open>The order of the phases\<close>

lemma phase_run_append:
  "phase_run ph (xs @ ys) =
     (case phase_run ph xs of None \<Rightarrow> None | Some ph' \<Rightarrow> phase_run ph' ys)"
  by (induction xs arbitrary: ph) (auto split: option.splits)

lemma phase_run_quiet:
  "\<forall>x\<in>set xs. phase_step ph x = Some ph \<Longrightarrow> phase_run ph xs = Some ph"
  by (induction xs) auto

lemma transfer_quiet: "transfer x \<Longrightarrow> phase_step ph x = Some ph"
  by (cases x) auto

lemma prelude_quiet: "x \<in> set (prelude a e) \<Longrightarrow> phase_step ph x = Some ph"
proof -
  assume "x \<in> set (prelude a e)"
  from prelude_prints [OF this] show ?thesis
  proof
    assume "x = Mkdtemp"
    then show ?thesis by simp
  next
    assume "\<exists>out. x = Print out \<and> (\<forall>n. out \<noteq> Upload_complete n) \<and> (\<forall>m. out \<noteq> Msg m)"
    then obtain out where "x = Print out" "\<forall>n. out \<noteq> Upload_complete n"
      by blast
    then show ?thesis
      by (cases out) auto
  qed
qed

lemma phase_run_upload:
  assumes "accept_upload port ok eph clients file = (r, f', a)"
  shows "phase_run Before a =
     (case r of Return n \<Rightarrow> Some Up_closed
      | Raise x \<Rightarrow> if x = KeyboardInterrupt then Some Up_closed else Some Before
      | Diverge \<Rightarrow> Some Up_open)"
proof -
  from accept_upload_shape [OF assms] obtain io where io: "\<forall>x\<in>set io. transfer x"
    and sh: "case r of
        Return n \<Rightarrow> a = Listen Up_sock (bound_port port eph) # io @ [Close_listener Up_sock]
      | Raise x \<Rightarrow> (a = [Bind_failed Up_sock port] \<and> x = OSError \<and> f' = file)
                   \<or> (a = Listen Up_sock (bound_port port eph) # io @ [Close_listener Up_sock]
                       \<and> x = KeyboardInterrupt)
      | Diverge \<Rightarrow> a = Listen Up_sock (bound_port port eph) # io"
    by blast
  from io have q: "phase_run Up_open io = Some Up_open"
    by (intro phase_run_quiet) (simp add: transfer_quiet)
  from sh q show ?thesis
    by (cases r) (auto simp: phase_run_append)
qed

lemma phase_run_download:
  assumes "serve_download port ok eph client file = (r, w, a)"
  shows "phase_run Uploaded a =
     (case r of Return n \<Rightarrow> Some Down_closed
      | Raise x \<Rightarrow> phase_run Uploaded a
      | Diverge \<Rightarrow> Some Down_open) \<and> phase_run Uploaded a \<noteq> None"
proof -
  from serve_download_shape [OF assms] obtain io where io: "\<forall>x\<in>set io. transfer x"
    and sh: "case r of
        Return u \<Rightarrow> a = Listen Down_sock (bound_port port eph) # io @ [Close_listener Down_sock]
                    \<and> (\<exists>f. file = Some f \<and> w = f)
      | Raise x \<Rightarrow> (a = [Bind_failed Down_sock port] \<and> x = OSError)
                   \<or> a = Listen Down_sock (bound_port port eph) # io @ [Close_listener Down_sock]
      | Diverge \<Rightarrow> a = Listen Down_sock (bound_port port eph) # io"
    by blast
  from io have q: "phase_run Down_open io = Some Down_open"
    by (intro phase_run_quiet) (simp add: transfer_quiet)
  from sh q show ?thesis
    by (cases r) (auto simp: phase_run_append)
qed

lemma main_in_order: "phase_run Before (actions (main a e)) \<noteq> None"
proof -
  have p: "phase_run Before (prelude a e) = Some Before"
    by (intro phase_run_quiet) (simp add: prelude_quiet)
  show ?thesis
  proof (cases rule: main_cases [of a e])
    case (upload_hangs f a1)
    with p phase_run_upload [OF upload_hangs(1)] show ?thesis
      by (simp add: phase_run_append)
  next
    case (upload_interrupted f a1 f' d')
    with p phase_run_upload [OF upload_interrupted(1)] show ?thesis
      by (simp add: phase_run_append)
  next
    case (upload_crashed x f a1)
    with p phase_run_upload [OF upload_crashed(1)] show ?thesis
      by (simp add: phase_run_append)
  next
    case (download_hangs n f a1 w a3)
    with p phase_run_upload [OF download_hangs(1)] phase_run_download [OF download_hangs(2)]
    show ?thesis
      by (simp add: phase_run_append)
  next
    case (download_interrupted n f a1 w a3 f' d')
    from phase_run_download [OF download_interrupted(2)] obtain ph where
      "phase_run Uploaded a3 = Some ph"
      by blast
    with p phase_run_upload [OF download_interrupted(1)] download_interrupted(3)
    show ?thesis
      by (simp add: phase_run_append)
  next
    case (download_crashed n f a1 x w a3)
    from phase_run_download [OF download_crashed(2)] obtain ph where
      "phase_run Uploaded a3 = Some ph"
      by blast
    with p phase_run_upload [OF download_crashed(1)] download_crashed(4)
    show ?thesis
      by (simp add: phase_run_append)
  next
    case (download_complete n f a1 w a3 f' d')
    from phase_run_download [OF download_complete(2)] obtain ph where
      "phase_run Uploaded a3 = Some ph"
      by blast
    with p phase_run_upload [OF download_complete(1)] download_complete(3)
    show ?thesis
      by (simp add: phase_run_append)
  qed
qed

lemma phase_run_open:
  "phase_run ph xs = Some ph' \<Longrightarrow>
   is_open Up_sock (ph = Up_open) xs = (ph' = Up_open)
   \<and> is_open Down_sock (ph = Down_open) xs = (ph' = Down_open)"
proof (induction xs arbitrary: ph)
  case Nil
  then show ?case by auto
next
  case (Cons x xs)
  from Cons.prems obtain ph1 where s: "phase_step ph x = Some ph1"
    and r: "phase_run ph1 xs = Some ph'"
    by (auto split: option.splits)
  from Cons.IH [OF r] have IH: "is_open Up_sock (ph1 = Up_open) xs = (ph' = Up_open)"
    "is_open Down_sock (ph1 = Down_open) xs = (ph' = Down_open)"
    by simp_all
  from s show ?case
  proof (cases x)
    case (Listen s' p)
    with s IH show ?thesis
      by (cases s') (auto split: if_splits)
  next
    case (Close_listener s')
    with s IH show ?thesis
      by (cases s') (auto split: if_splits)
  next
    case (Print out)
    with s IH show ?thesis
      by (cases out) (auto split: if_splits)
  qed (use s IH in auto)
qed

lemma phase_run_Uploaded:
  "phase_run ph xs = Some Uploaded \<Longrightarrow>
   (ph = Uploaded \<or> (\<exists>n. Print (Upload_complete n) \<in> set xs))
   \<and> (ph = Uploaded \<or> ph = Up_closed \<or> Close_listener Up_sock \<in> set xs)
   \<and> ph \<noteq> Down_open \<and> ph \<noteq> Down_closed"
proof (induction xs arbitrary: ph)
  case Nil
  then show ?case by auto
next
  case (Cons x xs)
  from Cons.prems obtain ph1 where s: "phase_step ph x = Some ph1"
    and r: "phase_run ph1 xs = Some Uploaded"
    by (auto split: option.splits)
  note IH = Cons.IH [OF r]
  from s show ?case
  proof (cases x)
    case (Listen s' p)
    with s IH show ?thesis
      by (cases s') (auto split: if_splits)
  next
    case (Close_listener s')
    with s IH show ?thesis
      by (cases s') (auto split: if_splits)
  next
    case (Print out)
    with s IH show ?thesis
      by (cases out) (auto split: if_splits)
  qed (use s IH in auto)
qed


lemma main_listens:
  assumes "Listen s p \<in> set (actions (main a e))"
  shows "p = bound_port (arg_port a) (if s = Up_sock then up_ephemeral e else down_ephemeral e)"
proof -
  have pre: "Listen s p \<notin> set (prelude a e)"
    using prelude_prints [of "Listen s p" a e] by auto
  have up: "Listen s p \<in> set a1 \<Longrightarrow>
      s = Up_sock \<and> p = bound_port (arg_port a) (up_ephemeral e)"
    if "accept_upload (arg_port a) (up_bind_ok e) (up_ephemeral e) (uploaders e) None
          = (r, f, a1)" for r f a1
    using upload_members [OF that, of "Listen s p"] by auto
  have down: "Listen s p \<in> set a3 \<Longrightarrow>
      s = Down_sock \<and> p = bound_port (arg_port a) (down_ephemeral e)"
    if "serve_download (arg_port a) (down_bind_ok e) (down_ephemeral e) (downloader e) f
          = (r, w, a3)" for r f w a3
    using download_members [OF that, of "Listen s p"] by auto
  show ?thesis
  proof (cases rule: main_cases [of a e])
    case (upload_hangs f a1)
    with assms pre up [OF upload_hangs(1)] show ?thesis
      by auto
  next
    case (upload_interrupted f a1 f' d')
    with assms pre up [OF upload_interrupted(1)] show ?thesis
      by auto
  next
    case (upload_crashed x f a1)
    with assms pre up [OF upload_crashed(1)] show ?thesis
      by auto
  next
    case (download_hangs n f a1 w a3)
    with assms pre up [OF download_hangs(1)] down [OF download_hangs(2)] show ?thesis
      by auto
  next
    case (download_interrupted n f a1 w a3 f' d')
    with assms pre up [OF download_interrupted(1)] down [OF download_interrupted(2)]
    show ?thesis
      by auto
  next
    case (download_crashed n f a1 x w a3)
    with assms pre up [OF download_crashed(1)] down [OF download_crashed(2)] show ?thesis
      by auto
  next
    case (download_complete n f a1 w a3 f' d')
    with assms pre up [OF download_complete(1)] down [OF download_complete(2)] show ?thesis
      by auto
  qed
qed

text \<open>
  C6, as stated, fails in one point: the two listening sockets need not be bound to the
  same port number. The command line may give port 0, and then the system picks a port at
  each bind. Here the upload socket is bound to port 45147 and the download socket to
  port 44389.
\<close>

theorem same_port_counterexample:
  "Listen Up_sock 45147
     \<in> set (actions (main (example_args\<lparr>arg_port := 0\<rparr>)
                (example_env\<lparr>up_ephemeral := 45147, down_ephemeral := 44389\<rparr>)))
   \<and> Listen Down_sock 44389
     \<in> set (actions (main (example_args\<lparr>arg_port := 0\<rparr>)
                (example_env\<lparr>up_ephemeral := 45147, down_ephemeral := 44389\<rparr>)))"
  by (simp add: example_args_def example_env_def run_simps)

text \<open>
  C6, amended. The two phases are strictly sequential. Every listening socket of a run is
  bound to the port that its bind yields for the port of the command line; when that port
  is not 0, this is the port of the command line itself, so both phases use the same
  port. After no initial part of the actions are the upload and the download listening
  sockets both open. And wherever the download socket starts to listen, the upload socket
  has been closed before, the upload has been reported complete before, and the upload
  socket is not open.
\<close>

theorem phases_sequential:
  "(\<forall>s p. Listen s p \<in> set (actions (main a e)) \<longrightarrow>
       p = bound_port (arg_port a) (if s = Up_sock then up_ephemeral e else down_ephemeral e))
   \<and> (arg_port a \<noteq> 0 \<longrightarrow>
        (\<forall>s p. Listen s p \<in> set (actions (main a e)) \<longrightarrow> p = arg_port a))
   \<and> (\<forall>pre post. actions (main a e) = pre @ post \<longrightarrow>
         \<not> (is_open Up_sock False pre \<and> is_open Down_sock False pre))
   \<and> (\<forall>pre p post. actions (main a e) = pre @ Listen Down_sock p # post \<longrightarrow>
         Close_listener Up_sock \<in> set pre \<and> (\<exists>n. Print (Upload_complete n) \<in> set pre)
         \<and> \<not> is_open Up_sock False pre)"
proof -
  have ports: "p = bound_port (arg_port a)
                     (if s = Up_sock then up_ephemeral e else down_ephemeral e)"
    if "Listen s p \<in> set (actions (main a e))" for s p
    using that by (rule main_listens)
  have same: "p = arg_port a"
    if "arg_port a \<noteq> 0" and "Listen s p \<in> set (actions (main a e))" for s p
    using ports [OF that(2)] that(1) by (simp add: bound_port_def)
  have apart: "\<not> (is_open Up_sock False pre \<and> is_open Down_sock False pre)"
    if "actions (main a e) = pre @ post" for pre post
  proof -
    from that main_in_order [of a e] obtain ph where "phase_run Before pre = Some ph"
      by (auto simp: phase_run_append split: option.splits)
    from phase_run_open [OF this] show ?thesis
      by auto
  qed
  have after: "Close_listener Up_sock \<in> set pre \<and> (\<exists>n. Print (Upload_complete n) \<in> set pre)
         \<and> \<not> is_open Up_sock False pre"
    if "actions (main a e) = pre @ Listen Down_sock p # post" for pre p post
  proof -
    from that main_in_order [of a e] obtain ph where ph: "phase_run Before pre = Some ph"
      and "phase_step ph (Listen Down_sock p) \<noteq> None"
      by (auto simp: phase_run_append split: option.splits)
    then have "ph = Uploaded"
      by (auto split: if_splits)
    with ph phase_run_Uploaded [of Before pre] phase_run_open [OF ph] show ?thesis
      by auto
  qed
  from ports same apart after show ?thesis
    by blast
qed

lemma example_listens:
  "Listen Down_sock 9000 \<in> set (actions (main example_args example_env))"
  "arg_port example_args = 9000"
  by (simp_all add: example_args_def example_env_def run_simps)

theorem phases_sequential_witness:
  "Listen Down_sock 9000 \<in> set (actions (main example_args example_env))
   \<and> arg_port example_args = 9000
   \<and> (\<exists>pre post. actions (main example_args example_env) = pre @ Listen Down_sock 9000 # post
         \<and> Close_listener Up_sock \<in> set pre \<and> (\<exists>n. Print (Upload_complete n) \<in> set pre)
         \<and> \<not> is_open Up_sock False pre
         \<and> \<not> (is_open Up_sock False pre \<and> is_open Down_sock False pre))"
proof -
  have "arg_port example_args \<noteq> 0"
    by (simp add: example_listens(2))
  with phases_sequential [of example_args example_env] example_listens(1)
  have "(9000::int) = arg_port example_args"
    by blast
  from example_listens(1) obtain pre post where
    sp: "actions (main example_args example_env) = pre @ Listen Down_sock 9000 # post"
    by (auto dest: split_list)
  with phases_sequential [of example_args example_env]
  have "Close_listener Up_sock \<in> set pre \<and> (\<exists>n. Print (Upload_complete n) \<in> set pre)
         \<and> \<not> is_open Up_sock False pre"
    by blast
  with sp example_listens show ?thesis
    by blast
qed

subsection \<open>The generated password\<close>

lemma alphabet_alnum:
  "\<forall>c\<in>set (ascii_letters @ digits). is_ascii_letter c \<or> is_ascii_digit c"
  by (simp add: ascii_letters_def ascii_lowercase_def ascii_uppercase_def digits_def
      is_ascii_letter_def is_ascii_digit_def)

lemma choice_mem: "seq \<noteq> [] \<Longrightarrow> choice seq r \<in> set seq"
  by (simp add: choice_def)

lemma gen_password_facts:
  "length (gen_password n rnd) = n \<and> set (gen_password n rnd) \<subseteq> set (ascii_letters @ digits)"
proof -
  have "ascii_letters @ digits \<noteq> []"
    by (simp add: digits_def)
  then have "choice (ascii_letters @ digits) r \<in> set (ascii_letters @ digits)" for r
    by (rule choice_mem)
  then show ?thesis
    unfolding gen_password_def Let_def by auto
qed

text \<open>
  C8. When no password is given on the command line, the password used is generated: it
  is exactly 10 characters long and each of its characters is an ASCII letter or an ASCII
  digit, whatever the random source draws.
\<close>

theorem generated_password_alnum:
  assumes "arg_password a = None"
  shows "length (the_password a rnd) = 10
       \<and> (\<forall>c\<in>set (the_password a rnd). is_ascii_letter c \<or> is_ascii_digit c)"
proof -
  from assms have "the_password a rnd = gen_password 10 rnd"
    by (simp add: the_password_def)
  with gen_password_facts [of 10 rnd] alphabet_alnum show ?thesis
    by auto
qed

lemma example_password: "the_password example_args id = ''abcdefghij''"
  by (simp add: the_password_def example_args_def gen_password_def Let_def choice_def
      ascii_letters_def ascii_lowercase_def ascii_uppercase_def digits_def upt_rec)

theorem generated_password_alnum_witness:
  "arg_password example_args = None
   \<and> the_password example_args id = ''abcdefghij''
   \<and> length (the_password example_args id) = 10
   \<and> (is_ascii_letter (hd (the_password example_args id))
      \<or> is_ascii_digit (hd (the_password example_args id)))"
proof -
  have h: "arg_password example_args = None"
    by (simp add: example_args_def)
  have "hd (the_password example_args id) \<in> set (the_password example_args id)"
    by (simp add: example_password)
  with generated_password_alnum [OF h, of id] h example_password show ?thesis
    by blast
qed

end
